theory Spec2Isabelle
  imports Main "HOL-Library.Word"
begin

section \<open>Data model of nxt_timer.c\<close>

text \<open>
  Milliseconds are a 32-bit counter that overflows (\<open>uint32_t time\<close> and
  \<open>int32_t diff\<close> in \<open>nxt_timer_add\<close>).  A timer is addressed by a pointer;
  pointers are natural numbers and the timers live in a heap.
\<close>

type_synonym nxt_msec_t = "32 word"

type_synonym timer_ptr = nat

datatype nxt_int_t = NXT_OK | NXT_ERROR

datatype nxt_timer_state_t =
  NXT_TIMER_DISABLED | NXT_TIMER_CHANGING | NXT_TIMER_WAITING | NXT_TIMER_ENQUEUED

datatype nxt_timer_operation_t = NXT_TIMER_ADD | NXT_TIMER_DISABLE | NXT_TIMER_DELETE

text \<open>
  The fields of \<open>nxt_timer_t\<close> that nxt_timer.c reads or writes.  \<open>in_tree\<close> is
  what \<open>nxt_timer_is_in_tree\<close> tests and \<open>nxt_timer_in_tree_set\<close> /
  \<open>nxt_timer_in_tree_clear\<close> write.  The precision is an unsigned quantity whose
  width is declared outside nxt_timer.c; it is kept as a natural number.
\<close>

record nxt_timer_t =
  in_tree :: bool
  state :: nxt_timer_state_t
  precision :: nat
  time :: nxt_msec_t
  work_queue :: nat

record nxt_timer_change_t =
  change :: nxt_timer_operation_t
  ch_time :: nxt_msec_t
  timer :: timer_ptr

text \<open>
  The engine as far as the timers are concerned: the fields of \<open>engine->timers\<close>
  (\<open>tree\<close>, \<open>now\<close>, \<open>minimum\<close>, \<open>mchanges\<close>, \<open>nchanges\<close>, \<open>changes\<close>), the heap
  holding the timers that the pointers refer to, and the log of submissions made with
  \<open>nxt_work_queue_add\<close>: pairs (work queue, timer) in the order they were submitted.

  \<open>changes\<close> is the allocated array: its length is the number of allocated records, of
  which the first \<open>nchanges\<close> are pending.  \<open>nchanges\<close> is only ever incremented below
  \<open>mchanges\<close> or just after being reset to 0, so it is a natural number.

  \<open>tree\<close> is the in-order sequence of the nodes linked in the rbtree.
\<close>

record nxt_event_engine_t =
  tree :: "timer_ptr list"
  now :: nxt_msec_t
  minimum :: nxt_msec_t
  mchanges :: nat
  nchanges :: nat
  changes :: "nxt_timer_change_t list"
  heap :: "timer_ptr \<Rightarrow> nxt_timer_t"
  work :: "(nat \<times> timer_ptr) list"

section \<open>Macros and the rbtree interface\<close>

text \<open>
  Modelled from the spec: the macro \<open>nxt_msec_diff\<close> is declared outside
  nxt_timer.c.  It is the signed wraparound-aware subtraction of two 32-bit
  millisecond values (the result is stored in an \<open>int32_t\<close>).
\<close>

definition nxt_msec_diff :: "nxt_msec_t \<Rightarrow> nxt_msec_t \<Rightarrow> int" where
  "nxt_msec_diff first second = sint (first - second)"

text \<open>
  Modelled from the spec: the macros \<open>nxt_abs\<close> and \<open>nxt_max\<close> are declared outside
  nxt_timer.c.  \<open>nxt_abs\<close> is the absolute value (the spec's \<open>|delta|\<close>); nxt_timer.c
  applies it to the \<open>int32_t\<close> variable \<open>diff\<close>, so the negation is the one of 32-bit
  two's complement: negating the most negative value -2^31 overflows and gives -2^31
  again, and the result of \<open>nxt_abs\<close> is negative there.
\<close>

definition nxt_abs :: "int \<Rightarrow> int" where
  "nxt_abs val = (if val < 0 then sint (- (word_of_int val :: 32 word)) else val)"

definition nxt_max :: "int \<Rightarrow> int \<Rightarrow> int" where
  "nxt_max val1 val2 = (if val1 < val2 then val2 else val1)"

text \<open>
  Modelled from the spec: the constant \<open>NXT_INFINITE_MSEC\<close> is declared outside
  nxt_timer.c.  It is the unbounded-wait sentinel, the all-ones millisecond value.
\<close>

definition NXT_INFINITE_MSEC :: nxt_msec_t where
  "NXT_INFINITE_MSEC = - 1"

definition nxt_timer_is_in_tree :: "nxt_timer_t \<Rightarrow> bool" where
  "nxt_timer_is_in_tree t = in_tree t"

definition nxt_timer_rbtree_compare :: "nxt_timer_t \<Rightarrow> nxt_timer_t \<Rightarrow> int" where
  "nxt_timer_rbtree_compare timer1 timer2 = nxt_msec_diff (time timer1) (time timer2)"

text \<open>
  Modelled from the spec: the rbtree (\<open>nxt_rbtree_insert\<close>, \<open>nxt_rbtree_delete\<close>,
  \<open>nxt_rbtree_min\<close>, \<open>nxt_rbtree_node_successor\<close>) is outside nxt_timer.c.  It is the
  Ordered Timer Index: an ordered collection with insert, delete, minimum and in-order
  successor.  The model keeps its in-order sequence.  Insertion places the new node in
  front of the first node that the comparison function orders after it (a negative
  result of \<open>nxt_timer_rbtree_compare\<close> means "before"); deletion unlinks the node.
\<close>

fun nxt_rbtree_insert ::
  "(timer_ptr \<Rightarrow> nxt_timer_t) \<Rightarrow> timer_ptr list \<Rightarrow> timer_ptr \<Rightarrow> timer_ptr list" where
  "nxt_rbtree_insert h [] n = [n]"
| "nxt_rbtree_insert h (m # ms) n =
     (if nxt_timer_rbtree_compare (h n) (h m) < 0 then n # m # ms
      else m # nxt_rbtree_insert h ms n)"

definition nxt_rbtree_delete :: "timer_ptr list \<Rightarrow> timer_ptr \<Rightarrow> timer_ptr list" where
  "nxt_rbtree_delete tr n = remove1 n tr"

text \<open>Assignment through a timer pointer: \<open>timer->field = value\<close>.\<close>

definition timer_update ::
  "timer_ptr \<Rightarrow> (nxt_timer_t \<Rightarrow> nxt_timer_t) \<Rightarrow> nxt_event_engine_t \<Rightarrow> nxt_event_engine_t" where
  "timer_update p f e = e\<lparr>heap := (heap e)(p := f (heap e p))\<rparr>"

section \<open>The functions of nxt_timer.c\<close>

text \<open>
  \<open>nxt_timers_init\<close>.  The third argument is what \<open>nxt_malloc\<close> returned: \<open>None\<close>
  for NULL, otherwise the fresh array.
\<close>

definition nxt_timers_init ::
  "nxt_event_engine_t \<Rightarrow> nat \<Rightarrow> nxt_timer_change_t list option \<Rightarrow> nxt_int_t \<times> nxt_event_engine_t" where
  "nxt_timers_init e mch blk =
     (let e1 = e\<lparr>tree := [], mchanges := mch\<rparr>
      in case blk of
           Some a \<Rightarrow> (NXT_OK, e1\<lparr>changes := a\<rparr>)
         | None \<Rightarrow> (NXT_ERROR, e1\<lparr>changes := []\<rparr>))"

text \<open>
  The body of the \<open>switch\<close> in \<open>nxt_timer_changes_commit\<close>: it returns the value of the
  local variable \<open>state\<close> (initialised to \<open>NXT_TIMER_DISABLED\<close>) together with the
  engine.
\<close>

definition nxt_timer_commit_switch ::
  "nxt_timer_change_t \<Rightarrow> nxt_event_engine_t \<Rightarrow> nxt_timer_state_t \<times> nxt_event_engine_t" where
  "nxt_timer_commit_switch ch e =
     (let p = timer ch in
      case change ch of
        NXT_TIMER_ADD \<Rightarrow>
          if nxt_timer_is_in_tree (heap e p)
             \<and> nxt_abs (nxt_msec_diff (ch_time ch) (time (heap e p))) < int (precision (heap e p))
          then (NXT_TIMER_WAITING, e)
          else
            let e1 = (if nxt_timer_is_in_tree (heap e p)
                      then e\<lparr>tree := nxt_rbtree_delete (tree e) p\<rparr> else e);
                e2 = timer_update p (\<lambda>t. t\<lparr>time := ch_time ch\<rparr>) e1;
                e3 = e2\<lparr>tree := nxt_rbtree_insert (heap e2) (tree e2) p\<rparr>;
                e4 = timer_update p (\<lambda>t. t\<lparr>in_tree := True\<rparr>) e3
            in (NXT_TIMER_WAITING, e4)
      | NXT_TIMER_DELETE \<Rightarrow>
          if nxt_timer_is_in_tree (heap e p)
          then (NXT_TIMER_DISABLED,
                timer_update p (\<lambda>t. t\<lparr>in_tree := False\<rparr>)
                  (e\<lparr>tree := nxt_rbtree_delete (tree e) p\<rparr>))
          else (NXT_TIMER_DISABLED, e)
      | NXT_TIMER_DISABLE \<Rightarrow> (NXT_TIMER_DISABLED, e))"

text \<open>One iteration of the \<open>while\<close> loop: the switch, then \<open>timer->state = state\<close>.\<close>

definition nxt_timer_commit_step ::
  "nxt_timer_change_t \<Rightarrow> nxt_event_engine_t \<Rightarrow> nxt_event_engine_t" where
  "nxt_timer_commit_step ch e =
     (case nxt_timer_commit_switch ch e of
        (st, e1) \<Rightarrow> timer_update (timer ch) (\<lambda>t. t\<lparr>state := st\<rparr>) e1)"

text \<open>The loop \<open>while (ch < end)\<close> over the records it visits, first to last.\<close>

fun nxt_timer_commit_loop ::
  "nxt_timer_change_t list \<Rightarrow> nxt_event_engine_t \<Rightarrow> nxt_event_engine_t" where
  "nxt_timer_commit_loop [] e = e"
| "nxt_timer_commit_loop (ch # chs) e = nxt_timer_commit_loop chs (nxt_timer_commit_step ch e)"

text \<open>The pending records: \<open>changes[0 .. nchanges)\<close>.\<close>

definition pending :: "nxt_event_engine_t \<Rightarrow> nxt_timer_change_t list" where
  "pending e = take (nchanges e) (changes e)"

text \<open>
  \<open>nxt_timer_changes_commit\<close>.  The loop reads \<open>changes[0 .. nchanges)\<close>; reading
  beyond the allocated array is an error (\<open>None\<close>).
\<close>

definition nxt_timer_changes_commit :: "nxt_event_engine_t \<Rightarrow> nxt_event_engine_t option" where
  "nxt_timer_changes_commit e =
     (if nchanges e \<le> length (changes e)
      then Some ((nxt_timer_commit_loop (pending e) e)\<lparr>nchanges := 0\<rparr>)
      else None)"

text \<open>
  \<open>nxt_timer_change\<close>.  Writing \<open>changes[nchanges]\<close> outside the allocated array is
  an error (\<open>None\<close>).
\<close>

definition nxt_timer_change ::
  "nxt_event_engine_t \<Rightarrow> timer_ptr \<Rightarrow> nxt_timer_operation_t \<Rightarrow> nxt_msec_t
     \<Rightarrow> nxt_event_engine_t option" where
  "nxt_timer_change e p c tm =
     (case (if nchanges e \<ge> mchanges e then nxt_timer_changes_commit e else Some e) of
        None \<Rightarrow> None
      | Some e1 \<Rightarrow>
          let e2 = timer_update p (\<lambda>t. t\<lparr>state := NXT_TIMER_CHANGING\<rparr>) e1
          in if nchanges e2 < length (changes e2)
             then Some (e2\<lparr>changes := (changes e2)
                              [nchanges e2 := \<lparr>change = c, ch_time = tm, timer = p\<rparr>],
                           nchanges := nchanges e2 + 1\<rparr>)
             else None)"

definition nxt_timer_add ::
  "nxt_event_engine_t \<Rightarrow> timer_ptr \<Rightarrow> nxt_msec_t \<Rightarrow> nxt_event_engine_t option" where
  "nxt_timer_add e p timeout =
     (let tm = now e + timeout in
      if state (heap e p) \<noteq> NXT_TIMER_CHANGING
         \<and> nxt_timer_is_in_tree (heap e p)
         \<and> nxt_abs (nxt_msec_diff tm (time (heap e p))) < int (precision (heap e p))
      then Some (timer_update p (\<lambda>t. t\<lparr>state := NXT_TIMER_WAITING\<rparr>) e)
      else nxt_timer_change e p NXT_TIMER_ADD tm)"

definition nxt_timer_disable ::
  "nxt_event_engine_t \<Rightarrow> timer_ptr \<Rightarrow> nxt_event_engine_t option" where
  "nxt_timer_disable e p =
     (if state (heap e p) \<noteq> NXT_TIMER_CHANGING
      then Some (timer_update p (\<lambda>t. t\<lparr>state := NXT_TIMER_DISABLED\<rparr>) e)
      else nxt_timer_change e p NXT_TIMER_DISABLE 0)"

text \<open>\<open>nxt_timer_delete\<close> returns the boolean together with the engine.\<close>

definition nxt_timer_delete ::
  "nxt_event_engine_t \<Rightarrow> timer_ptr \<Rightarrow> (bool \<times> nxt_event_engine_t) option" where
  "nxt_timer_delete e p =
     (if nxt_timer_is_in_tree (heap e p) \<or> state (heap e p) = NXT_TIMER_CHANGING
      then (case nxt_timer_change e p NXT_TIMER_DELETE 0 of
              None \<Rightarrow> None
            | Some e1 \<Rightarrow> Some (True, e1))
      else
        let pending_fire = (state (heap e p) = NXT_TIMER_ENQUEUED)
        in Some (pending_fire, timer_update p (\<lambda>t. t\<lparr>state := NXT_TIMER_DISABLED\<rparr>) e))"

text \<open>
  The \<open>for\<close> loop of \<open>nxt_timer_find\<close>: from \<open>nxt_rbtree_min\<close> along
  \<open>nxt_rbtree_node_successor\<close>, that is, along the in-order sequence.  The tree is not
  modified.  After the loop follows the code behind it.
\<close>

fun nxt_timer_find_loop ::
  "timer_ptr list \<Rightarrow> nxt_event_engine_t \<Rightarrow> nxt_msec_t \<times> nxt_event_engine_t" where
  "nxt_timer_find_loop [] e =
     (NXT_INFINITE_MSEC, e\<lparr>minimum := now e + 24 * 60 * 60 * 1000\<rparr>)"
| "nxt_timer_find_loop (n # ns) e =
     (if state (heap e n) \<noteq> NXT_TIMER_DISABLED
      then
        let tm = time (heap e n);
            e1 = e\<lparr>minimum := tm\<rparr>;
            delta = nxt_msec_diff tm (now e1)
        in (word_of_int (nxt_max delta 0), e1)
      else nxt_timer_find_loop ns e)"

definition nxt_timer_find ::
  "nxt_event_engine_t \<Rightarrow> (nxt_msec_t \<times> nxt_event_engine_t) option" where
  "nxt_timer_find e =
     (case (if nchanges e \<noteq> 0 then nxt_timer_changes_commit e else Some e) of
        None \<Rightarrow> None
      | Some e1 \<Rightarrow> Some (nxt_timer_find_loop (tree e1) e1))"

text \<open>
  The \<open>for\<close> loop of \<open>nxt_timer_expire\<close> over the in-order sequence taken when the
  loop starts; the successor is fetched before the node is deleted.
\<close>

fun nxt_timer_expire_loop ::
  "nxt_msec_t \<Rightarrow> timer_ptr list \<Rightarrow> nxt_event_engine_t \<Rightarrow> nxt_event_engine_t" where
  "nxt_timer_expire_loop nw [] e = e"
| "nxt_timer_expire_loop nw (n # ns) e =
     (if nxt_msec_diff (time (heap e n)) nw > 0 then e
      else
        let e1 = e\<lparr>tree := nxt_rbtree_delete (tree e) n\<rparr>;
            e2 = timer_update n (\<lambda>t. t\<lparr>in_tree := False\<rparr>) e1;
            e3 = (if state (heap e2 n) \<noteq> NXT_TIMER_DISABLED
                  then (timer_update n (\<lambda>t. t\<lparr>state := NXT_TIMER_ENQUEUED\<rparr>) e2)
                         \<lparr>work := work e2 @ [(work_queue (heap e2 n), n)]\<rparr>
                  else e2)
        in nxt_timer_expire_loop nw ns e3)"

definition nxt_timer_expire :: "nxt_event_engine_t \<Rightarrow> nxt_msec_t \<Rightarrow> nxt_event_engine_t" where
  "nxt_timer_expire e nw =
     (let e1 = e\<lparr>now := nw\<rparr>
      in if nxt_msec_diff (minimum e1) nw > 0 then e1
         else nxt_timer_expire_loop nw (tree e1) e1)"

text \<open>
  \<open>nxt_timer_handler\<close>, run by the work queue for a submitted timer.  The boolean says
  whether the timer's own handler is called.
\<close>

definition nxt_timer_handler ::
  "nxt_event_engine_t \<Rightarrow> timer_ptr \<Rightarrow> bool \<times> nxt_event_engine_t" where
  "nxt_timer_handler e p =
     (if state (heap e p) = NXT_TIMER_ENQUEUED
      then (True, timer_update p (\<lambda>t. t\<lparr>state := NXT_TIMER_DISABLED\<rparr>) e)
      else (False, e))"

section \<open>Invariants and specification-level definitions\<close>

text \<open>
  The batch is well formed: the capacity is at least 1, the array has that many
  records, and the number of pending records does not exceed it.  This is what
  \<open>nxt_timers_init\<close> with a capacity of at least 1 and a successful allocation
  establishes.
\<close>

definition batch_wf :: "nxt_event_engine_t \<Rightarrow> bool" where
  "batch_wf e \<longleftrightarrow>
     1 \<le> mchanges e \<and> length (changes e) = mchanges e \<and> nchanges e \<le> mchanges e"

text \<open>
  The membership invariant: a node is linked at most once, and a timer is linked in
  the tree exactly when its \<open>in_tree\<close> flag is set.
\<close>

definition tree_inv :: "nxt_event_engine_t \<Rightarrow> bool" where
  "tree_inv e \<longleftrightarrow> distinct (tree e) \<and> (\<forall>p. (p \<in> set (tree e)) = in_tree (heap e p))"

text \<open>A timer with a pending record is in state Changing or is not linked in the tree.\<close>

definition pending_inv :: "nxt_event_engine_t \<Rightarrow> bool" where
  "pending_inv e \<longleftrightarrow>
     (\<forall>r \<in> set (pending e).
        state (heap e (timer r)) = NXT_TIMER_CHANGING \<or> \<not> in_tree (heap e (timer r)))"

text \<open>A timer in state Changing has a pending record.\<close>

definition changing_inv :: "nxt_event_engine_t \<Rightarrow> bool" where
  "changing_inv e \<longleftrightarrow>
     (\<forall>p. state (heap e p) = NXT_TIMER_CHANGING \<longrightarrow> p \<in> timer ` set (pending e))"

definition engine_inv :: "nxt_event_engine_t \<Rightarrow> bool" where
  "engine_inv e \<longleftrightarrow> batch_wf e \<and> tree_inv e \<and> pending_inv e \<and> changing_inv e"

text \<open>
  The engine without its batch, and the engine after the loop of the commit has run
  over the pending records (the commit before it resets \<open>nchanges\<close>).
\<close>

definition core :: "nxt_event_engine_t \<Rightarrow> nxt_event_engine_t" where
  "core e = e\<lparr>nchanges := 0, changes := []\<rparr>"

definition settle :: "nxt_event_engine_t \<Rightarrow> nxt_event_engine_t" where
  "settle e = nxt_timer_commit_loop (pending e) e"

text \<open>
  The engine to which \<open>nxt_timer_change\<close> appends its record: the engine itself when
  the batch has room, the committed engine when the batch is full.
\<close>

definition flushed :: "nxt_event_engine_t \<Rightarrow> nxt_event_engine_t" where
  "flushed e = (if nchanges e < mchanges e then e else (settle e)\<lparr>nchanges := 0\<rparr>)"

text \<open>
  One step of any operation of the facility: the three public operations, the commit,
  the deadline query, the expiry scan and the handler run by the work queue.
\<close>

inductive engine_step :: "nxt_event_engine_t \<Rightarrow> nxt_event_engine_t \<Rightarrow> bool" where
  step_add: "nxt_timer_add e p timeout = Some e' \<Longrightarrow> engine_step e e'"
| step_disable: "nxt_timer_disable e p = Some e' \<Longrightarrow> engine_step e e'"
| step_delete: "nxt_timer_delete e p = Some (b, e') \<Longrightarrow> engine_step e e'"
| step_commit: "nxt_timer_changes_commit e = Some e' \<Longrightarrow> engine_step e e'"
| step_find: "nxt_timer_find e = Some (w, e') \<Longrightarrow> engine_step e e'"
| step_expire: "nxt_timer_expire e nw = e' \<Longrightarrow> engine_step e e'"
| step_handler: "nxt_timer_handler e p = (b, e') \<Longrightarrow> engine_step e e'"

text \<open>
  The reachable engine states: \<open>nxt_timers_init\<close> with a capacity of at least 1 and a
  successful allocation, on an engine with no pending records whose timers are all
  Disabled and not linked (the state in which clients create them), followed by any
  number of steps.
\<close>

inductive reachable :: "nxt_event_engine_t \<Rightarrow> bool" where
  reachable_init:
    "\<lbrakk>nchanges e0 = 0;
      \<forall>p. \<not> in_tree (heap e0 p) \<and> state (heap e0 p) = NXT_TIMER_DISABLED;
      1 \<le> mch; length a = mch;
      nxt_timers_init e0 mch (Some a) = (NXT_OK, e)\<rbrakk> \<Longrightarrow> reachable e"
| reachable_step: "\<lbrakk>reachable e; engine_step e e'\<rbrakk> \<Longrightarrow> reachable e'"

text \<open>
  The effect of one change record in the words of the specification of the batch
  commit: an Add record whose timer is in the tree and whose time is within the
  precision of the timer's deadline only sets the state to Waiting; any other Add
  record removes the stale tree entry if there is one, sets the deadline, reinserts
  the timer and sets the state to Waiting; a Delete record removes the timer from the
  tree and sets the state to Disabled; a Disable record only sets the state to
  Disabled.
\<close>

definition commit_record_spec ::
  "nxt_timer_change_t \<Rightarrow> nxt_event_engine_t \<Rightarrow> nxt_event_engine_t" where
  "commit_record_spec r e =
     (let p = timer r; t = heap e p in
      case change r of
        NXT_TIMER_ADD \<Rightarrow>
          if p \<in> set (tree e) \<and> \<bar>sint (ch_time r - time t)\<bar> < int (precision t)
          then e\<lparr>heap := (heap e)(p := t\<lparr>state := NXT_TIMER_WAITING\<rparr>)\<rparr>
          else
            let h = (heap e)(p := t\<lparr>in_tree := True, state := NXT_TIMER_WAITING,
                                      time := ch_time r\<rparr>)
            in e\<lparr>tree := nxt_rbtree_insert h (remove1 p (tree e)) p, heap := h\<rparr>
      | NXT_TIMER_DELETE \<Rightarrow>
          e\<lparr>tree := remove1 p (tree e),
            heap := (heap e)(p := t\<lparr>in_tree := False, state := NXT_TIMER_DISABLED\<rparr>)\<rparr>
      | NXT_TIMER_DISABLE \<Rightarrow>
          e\<lparr>heap := (heap e)(p := t\<lparr>state := NXT_TIMER_DISABLED\<rparr>)\<rparr>)"

text \<open>
  The batch commit in the words of the specification: the pending records in insertion
  order, one at a time, then the empty batch.
\<close>

definition changes_commit_spec :: "nxt_event_engine_t \<Rightarrow> nxt_event_engine_t" where
  "changes_commit_spec e =
     (foldl (\<lambda>e r. commit_record_spec r e) e (pending e))\<lparr>nchanges := 0\<rparr>"

text \<open>
  The one point where the code leaves \<open>commit_record_spec\<close>: an Add record for a linked
  timer whose time lies exactly 2^31 milliseconds from the timer's deadline.  There the
  32-bit negation in \<open>nxt_abs\<close> overflows, its result is negative and hence below every
  precision, and \<open>nxt_timer_changes_commit\<close> takes the coalescing branch.
\<close>

definition record_overflows :: "nxt_timer_change_t \<Rightarrow> nxt_event_engine_t \<Rightarrow> bool" where
  "record_overflows r e \<longleftrightarrow>
     change r = NXT_TIMER_ADD \<and> in_tree (heap e (timer r))
     \<and> sint (ch_time r - time (heap e (timer r))) = - (2 ^ 31)"

text \<open>No record meets that point when the commit loop reaches it.\<close>

fun no_overflow_records :: "nxt_timer_change_t list \<Rightarrow> nxt_event_engine_t \<Rightarrow> bool" where
  "no_overflow_records [] e = True"
| "no_overflow_records (r # rs) e =
     (\<not> record_overflows r e \<and> no_overflow_records rs (nxt_timer_commit_step r e))"

text \<open>
  The deadline query after the commit, in the words of the specification: the first
  entry of the index, in order, whose state is not Disabled decides.
\<close>

definition find_spec :: "nxt_event_engine_t \<Rightarrow> nxt_msec_t \<times> nxt_event_engine_t" where
  "find_spec e =
     (case List.find (\<lambda>p. state (heap e p) \<noteq> NXT_TIMER_DISABLED) (tree e) of
        Some p \<Rightarrow>
          (word_of_int (max (sint (time (heap e p) - now e)) 0),
           e\<lparr>minimum := time (heap e p)\<rparr>)
      | None \<Rightarrow> (NXT_INFINITE_MSEC, e\<lparr>minimum := now e + 86400000\<rparr>))"

text \<open>
  The expiry scan in the words of the specification.  An entry is due when its
  deadline is not after \<open>nw\<close> in the signed wraparound-aware comparison; the walk takes
  the due entries up to the first entry that is not due.
\<close>

definition is_due :: "nxt_event_engine_t \<Rightarrow> nxt_msec_t \<Rightarrow> timer_ptr \<Rightarrow> bool" where
  "is_due e nw p \<longleftrightarrow> \<not> 0 < sint (time (heap e p) - nw)"

definition expire_spec :: "nxt_event_engine_t \<Rightarrow> nxt_msec_t \<Rightarrow> nxt_event_engine_t" where
  "expire_spec e nw =
     (if 0 < sint (minimum e - nw) then e\<lparr>now := nw\<rparr>
      else
        let due = takeWhile (is_due e nw) (tree e)
        in e\<lparr>now := nw,
             tree := dropWhile (is_due e nw) (tree e),
             heap := (\<lambda>p. if p \<in> set due
                           then (heap e p)\<lparr>in_tree := False,
                                  state := (if state (heap e p) = NXT_TIMER_DISABLED
                                            then NXT_TIMER_DISABLED else NXT_TIMER_ENQUEUED)\<rparr>
                           else heap e p),
             work := work e @ map (\<lambda>p. (work_queue (heap e p), p))
                                  (filter (\<lambda>p. state (heap e p) \<noteq> NXT_TIMER_DISABLED) due)\<rparr>)"

text \<open>The timers that a call of \<open>nxt_timer_expire\<close> submits to work queues.\<close>

definition enqueued_by_expire :: "nxt_event_engine_t \<Rightarrow> nxt_msec_t \<Rightarrow> timer_ptr list" where
  "enqueued_by_expire e nw = map snd (drop (length (work e)) (work (nxt_timer_expire e nw)))"

text \<open>A sequence of \<open>nxt_timer_add\<close> calls, one per (timer, timeout) pair.\<close>

fun nxt_timer_add_list ::
  "nxt_event_engine_t \<Rightarrow> (timer_ptr \<times> nxt_msec_t) list \<Rightarrow> nxt_event_engine_t option" where
  "nxt_timer_add_list e [] = Some e"
| "nxt_timer_add_list e ((p, timeout) # rs) =
     (case nxt_timer_add e p timeout of
        None \<Rightarrow> None
      | Some e1 \<Rightarrow> nxt_timer_add_list e1 rs)"

text \<open>
  The scenario of the disable-then-fire race: \<open>nxt_timer_add\<close> with timeout 0, an
  optional commit, then \<open>nxt_timer_disable\<close>.
\<close>

definition add_then_disable ::
  "nxt_event_engine_t \<Rightarrow> timer_ptr \<Rightarrow> bool \<Rightarrow> nxt_event_engine_t option" where
  "add_then_disable e p commit_between =
     (case nxt_timer_add e p 0 of
        None \<Rightarrow> None
      | Some e1 \<Rightarrow>
          (case (if commit_between then nxt_timer_changes_commit e1 else Some e1) of
             None \<Rightarrow> None
           | Some e2 \<Rightarrow> nxt_timer_disable e2 p))"

text \<open>
  The scenarios of the coalescing property: one \<open>nxt_timer_add\<close> and the commit, and
  two \<open>nxt_timer_add\<close> calls on the same timer and the commit.
\<close>

definition add_settled ::
  "nxt_event_engine_t \<Rightarrow> timer_ptr \<Rightarrow> nxt_msec_t \<Rightarrow> nxt_event_engine_t option" where
  "add_settled e p x =
     (case nxt_timer_add e p x of
        None \<Rightarrow> None
      | Some e1 \<Rightarrow> nxt_timer_changes_commit e1)"

definition add_add_settled ::
  "nxt_event_engine_t \<Rightarrow> timer_ptr \<Rightarrow> nxt_msec_t \<Rightarrow> nxt_msec_t \<Rightarrow> nxt_event_engine_t option" where
  "add_add_settled e p x x' =
     (case nxt_timer_add e p x of
        None \<Rightarrow> None
      | Some e1 \<Rightarrow>
          (case nxt_timer_add e1 p x' of
             None \<Rightarrow> None
           | Some e2 \<Rightarrow> nxt_timer_changes_commit e2))"

section \<open>Concrete engines\<close>

text \<open>A timer with precision 100 milliseconds that dispatches to work queue 7.\<close>

definition tmr :: "bool \<Rightarrow> nxt_timer_state_t \<Rightarrow> nxt_msec_t \<Rightarrow> nxt_timer_t" where
  "tmr b s tm = \<lparr>in_tree = b, state = s, precision = 100, time = tm, work_queue = 7\<rparr>"

text \<open>The content of a slot of the changes array that has not been written yet.\<close>

definition rec0 :: nxt_timer_change_t where
  "rec0 = \<lparr>change = NXT_TIMER_DISABLE, ch_time = 0, timer = 0\<rparr>"

text \<open>A change record.\<close>

definition chg :: "nxt_timer_operation_t \<Rightarrow> nxt_msec_t \<Rightarrow> timer_ptr \<Rightarrow> nxt_timer_change_t" where
  "chg c tm p = \<lparr>change = c, ch_time = tm, timer = p\<rparr>"

text \<open>A heap in which every timer is Disabled and not linked, as clients create them.\<close>

definition heap0 :: "timer_ptr \<Rightarrow> nxt_timer_t" where
  "heap0 = (\<lambda>_. tmr False NXT_TIMER_DISABLED 0)"

text \<open>An engine before \<open>nxt_timers_init\<close>.\<close>

definition R0 :: nxt_event_engine_t where
  "R0 = \<lparr>tree = [], now = 0, minimum = 0, mchanges = 0, nchanges = 0, changes = [],
         heap = heap0, work = []\<rparr>"

text \<open>The engine \<open>R0\<close> after \<open>nxt_timers_init\<close> with capacity 2.\<close>

definition R1 :: nxt_event_engine_t where
  "R1 = \<lparr>tree = [], now = 0, minimum = 0, mchanges = 2, nchanges = 0, changes = [rec0, rec0],
         heap = heap0, work = []\<rparr>"

text \<open>The engine \<open>R1\<close> after \<open>nxt_timer_add\<close> of timer 1 with timeout 100.\<close>

definition R1a :: nxt_event_engine_t where
  "R1a = \<lparr>tree = [], now = 0, minimum = 0, mchanges = 2, nchanges = 1,
          changes = [chg NXT_TIMER_ADD 100 1, rec0],
          heap = heap0(1 := tmr False NXT_TIMER_CHANGING 0), work = []\<rparr>"

text \<open>The engine \<open>R1a\<close> after \<open>nxt_timer_find\<close>.\<close>

definition R2 :: nxt_event_engine_t where
  "R2 = \<lparr>tree = [1], now = 0, minimum = 100, mchanges = 2, nchanges = 0,
         changes = [chg NXT_TIMER_ADD 100 1, rec0],
         heap = heap0(1 := tmr True NXT_TIMER_WAITING 100), work = []\<rparr>"

text \<open>An engine with three linked timers, the first one Disabled; the cached minimum is 10.\<close>

definition X1 :: nxt_event_engine_t where
  "X1 = \<lparr>tree = [1, 2, 3], now = 0, minimum = 10, mchanges = 2, nchanges = 0,
         changes = [rec0, rec0],
         heap = heap0(1 := tmr True NXT_TIMER_DISABLED 10,
                      2 := tmr True NXT_TIMER_WAITING 20,
                      3 := tmr True NXT_TIMER_WAITING 100),
         work = []\<rparr>"

text \<open>
  An engine with a full batch of five records: an Add within the precision of the
  deadline of timer 1, an Add that moves timer 2, a Delete, a Disable and an Add of a
  timer that is not linked.
\<close>

definition W1 :: nxt_event_engine_t where
  "W1 = \<lparr>tree = [1, 2], now = 0, minimum = 0, mchanges = 5, nchanges = 5,
         changes = [chg NXT_TIMER_ADD 1050 1, chg NXT_TIMER_ADD 500 2, chg NXT_TIMER_DELETE 0 1,
                    chg NXT_TIMER_DISABLE 0 3, chg NXT_TIMER_ADD 700 4],
         heap = heap0(1 := tmr True NXT_TIMER_CHANGING 1000,
                      2 := tmr True NXT_TIMER_CHANGING 2000,
                      3 := tmr False NXT_TIMER_CHANGING 0,
                      4 := tmr False NXT_TIMER_CHANGING 0),
         work = []\<rparr>"

text \<open>An engine with one pending Add and a Disabled timer at the front of the index.\<close>

definition F1 :: nxt_event_engine_t where
  "F1 = \<lparr>tree = [1, 2], now = 20, minimum = 0, mchanges = 2, nchanges = 1,
         changes = [chg NXT_TIMER_ADD 30 3, rec0],
         heap = heap0(1 := tmr True NXT_TIMER_DISABLED 10,
                      2 := tmr True NXT_TIMER_WAITING 70,
                      3 := tmr False NXT_TIMER_CHANGING 0),
         work = []\<rparr>"

text \<open>An engine whose index holds a Disabled timer only.\<close>

definition F2 :: nxt_event_engine_t where
  "F2 = \<lparr>tree = [1], now = 20, minimum = 0, mchanges = 2, nchanges = 0,
         changes = [rec0, rec0],
         heap = heap0(1 := tmr True NXT_TIMER_DISABLED 10),
         work = []\<rparr>"

text \<open>
  An engine with a linked timer 1, a timer 3 in state Changing, an Enqueued timer 5 and
  a timer 6 that is neither linked nor Changing.
\<close>

definition D1 :: nxt_event_engine_t where
  "D1 = \<lparr>tree = [1], now = 0, minimum = 0, mchanges = 2, nchanges = 1,
         changes = [chg NXT_TIMER_ADD 30 3, rec0],
         heap = heap0(1 := tmr True NXT_TIMER_WAITING 10,
                      3 := tmr False NXT_TIMER_CHANGING 0,
                      5 := tmr False NXT_TIMER_ENQUEUED 10,
                      6 := tmr False NXT_TIMER_WAITING 10),
         work = [(7, 5)]\<rparr>"

text \<open>The engine \<open>R1\<close> after \<open>nxt_timer_add\<close> of timer 1 with timeout 500.\<close>

definition CE0 :: nxt_event_engine_t where
  "CE0 = \<lparr>tree = [], now = 0, minimum = 0, mchanges = 2, nchanges = 1,
          changes = [chg NXT_TIMER_ADD 500 1, rec0],
          heap = heap0(1 := tmr False NXT_TIMER_CHANGING 0), work = []\<rparr>"

text \<open>The engine \<open>CE0\<close> after \<open>nxt_timer_find\<close>.\<close>

definition CE1a :: nxt_event_engine_t where
  "CE1a = \<lparr>tree = [1], now = 0, minimum = 500, mchanges = 2, nchanges = 0,
          changes = [chg NXT_TIMER_ADD 500 1, rec0],
          heap = heap0(1 := tmr True NXT_TIMER_WAITING 500), work = []\<rparr>"

text \<open>
  The engine \<open>CE1a\<close> after \<open>nxt_timer_expire\<close> at time 100: timer 1 is linked with
  deadline 500 and the batch is empty.
\<close>

definition CE1 :: nxt_event_engine_t where
  "CE1 = \<lparr>tree = [1], now = 100, minimum = 500, mchanges = 2, nchanges = 0,
          changes = [chg NXT_TIMER_ADD 500 1, rec0],
          heap = heap0(1 := tmr True NXT_TIMER_WAITING 500), work = []\<rparr>"

text \<open>
  The engine \<open>CE1\<close> after \<open>nxt_timer_add\<close> with timeout 0 and \<open>nxt_timer_disable\<close> of
  timer 1: both calls appended a record, the timer is still linked with deadline 500.
\<close>

definition CE2 :: nxt_event_engine_t where
  "CE2 = \<lparr>tree = [1], now = 100, minimum = 500, mchanges = 2, nchanges = 2,
          changes = [chg NXT_TIMER_ADD 100 1, chg NXT_TIMER_DISABLE 0 1],
          heap = heap0(1 := tmr True NXT_TIMER_CHANGING 500), work = []\<rparr>"

text \<open>
  The engine \<open>CE1\<close> after \<open>nxt_timer_add\<close> with timeout 0, a commit and
  \<open>nxt_timer_disable\<close> of timer 1.
\<close>

definition CE3 :: nxt_event_engine_t where
  "CE3 = \<lparr>tree = [1], now = 100, minimum = 500, mchanges = 2, nchanges = 0,
          changes = [chg NXT_TIMER_ADD 100 1, rec0],
          heap = heap0(1 := tmr True NXT_TIMER_DISABLED 100), work = []\<rparr>"

text \<open>The engine \<open>R1\<close> after \<open>nxt_timer_add\<close> of timer 1 with timeout 1000.\<close>

definition CX0 :: nxt_event_engine_t where
  "CX0 = \<lparr>tree = [], now = 0, minimum = 0, mchanges = 2, nchanges = 1,
          changes = [chg NXT_TIMER_ADD 1000 1, rec0],
          heap = heap0(1 := tmr False NXT_TIMER_CHANGING 0), work = []\<rparr>"

text \<open>The engine \<open>CX0\<close> after \<open>nxt_timer_find\<close>: timer 1 is Waiting with deadline 1000.\<close>

definition CX1 :: nxt_event_engine_t where
  "CX1 = \<lparr>tree = [1], now = 0, minimum = 1000, mchanges = 2, nchanges = 0,
          changes = [chg NXT_TIMER_ADD 1000 1, rec0],
          heap = heap0(1 := tmr True NXT_TIMER_WAITING 1000), work = []\<rparr>"

text \<open>
  The engine \<open>CX1\<close> after two \<open>nxt_timer_add\<close> calls with timeouts 1050 and 1120 and
  the commit.
\<close>

definition CX2 :: nxt_event_engine_t where
  "CX2 = \<lparr>tree = [1], now = 0, minimum = 1000, mchanges = 2, nchanges = 0,
          changes = [chg NXT_TIMER_ADD 1120 1, rec0],
          heap = heap0(1 := tmr True NXT_TIMER_WAITING 1120), work = []\<rparr>"

text \<open>The engine \<open>R1\<close> after \<open>nxt_timer_add\<close> of timer 1 with timeout 0.\<close>

definition OV0 :: nxt_event_engine_t where
  "OV0 = \<lparr>tree = [], now = 0, minimum = 0, mchanges = 2, nchanges = 1,
          changes = [chg NXT_TIMER_ADD 0 1, rec0],
          heap = heap0(1 := tmr False NXT_TIMER_CHANGING 0), work = []\<rparr>"

text \<open>The engine \<open>OV0\<close> after \<open>nxt_timer_add\<close> of timer 1 with timeout 2^31.\<close>

definition OV1 :: nxt_event_engine_t where
  "OV1 = \<lparr>tree = [], now = 0, minimum = 0, mchanges = 2, nchanges = 2,
          changes = [chg NXT_TIMER_ADD 0 1, chg NXT_TIMER_ADD 2147483648 1],
          heap = heap0(1 := tmr False NXT_TIMER_CHANGING 0), work = []\<rparr>"

text \<open>The engine \<open>OV1\<close> after \<open>nxt_timer_changes_commit\<close>: the deadline is 0.\<close>

definition OV2 :: nxt_event_engine_t where
  "OV2 = \<lparr>tree = [1], now = 0, minimum = 0, mchanges = 2, nchanges = 0,
          changes = [chg NXT_TIMER_ADD 0 1, chg NXT_TIMER_ADD 2147483648 1],
          heap = heap0(1 := tmr True NXT_TIMER_WAITING 0), work = []\<rparr>"

text \<open>
  The engine \<open>OV1\<close> after the commit in the words of the specification: the deadline
  is 2^31.
\<close>

definition OV3 :: nxt_event_engine_t where
  "OV3 = \<lparr>tree = [1], now = 0, minimum = 0, mchanges = 2, nchanges = 0,
          changes = [chg NXT_TIMER_ADD 0 1, chg NXT_TIMER_ADD 2147483648 1],
          heap = heap0(1 := tmr True NXT_TIMER_WAITING 2147483648), work = []\<rparr>"

section \<open>Basic facts\<close>

lemma sint_neg_32:
  "sint (- (w :: 32 word)) = (if sint w = - (2 ^ 31) then - (2 ^ 31) else - sint w)"
proof (cases "sint w = - (2 ^ 31)")
  case True
  have "sint (- w) = signed_take_bit (LENGTH(32) - 1) (- sint w)"
    by (simp add: sint_word_ariths)
  also have "\<dots> = - (2 ^ 31)"
    using True by simp
  finally show ?thesis using True by simp
next
  case False
  have lo: "- (2 ^ 31) \<le> sint w" and hi: "sint w < 2 ^ 31"
    using sint_ge [of w] sint_lt [of w] by simp_all
  have "sint (- w) = signed_take_bit (LENGTH(32) - 1) (- sint w)"
    by (simp add: sint_word_ariths)
  also have "\<dots> = - sint w"
    using False lo hi by (intro signed_take_bit_int_eq_self) simp_all
  finally show ?thesis using False by simp
qed

text \<open>
  \<open>nxt_abs\<close> on a 32-bit signed value is the absolute value, except at -2^31, where it
  is -2^31.
\<close>

lemma nxt_abs_sint:
  "nxt_abs (sint (w :: 32 word)) = (if sint w = - (2 ^ 31) then - (2 ^ 31) else \<bar>sint w\<bar>)"
  by (simp add: nxt_abs_def sint_neg_32)

lemma nxt_abs_sint_less:
  "nxt_abs (sint (w :: 32 word)) < int n \<longleftrightarrow> \<bar>sint w\<bar> < int n \<or> sint w = - (2 ^ 31)"
  by (auto simp add: nxt_abs_sint)

lemma timer_update_simps [simp]:
  "heap (timer_update p f e) = (heap e)(p := f (heap e p))"
  "tree (timer_update p f e) = tree e"
  "now (timer_update p f e) = now e"
  "minimum (timer_update p f e) = minimum e"
  "mchanges (timer_update p f e) = mchanges e"
  "nchanges (timer_update p f e) = nchanges e"
  "changes (timer_update p f e) = changes e"
  "work (timer_update p f e) = work e"
  by (simp_all add: timer_update_def)

lemma pending_timer_update [simp]: "pending (timer_update p f e) = pending e"
  by (simp add: pending_def)

lemma insert_cong_time:
  "(\<And>q. time (h q) = time (h' q)) \<Longrightarrow> nxt_rbtree_insert h tr n = nxt_rbtree_insert h' tr n"
  by (induction tr) (simp_all add: nxt_timer_rbtree_compare_def)

lemma set_insert [simp]: "set (nxt_rbtree_insert h tr n) = insert n (set tr)"
  by (induction tr) auto

lemma distinct_insert: "distinct tr \<Longrightarrow> n \<notin> set tr \<Longrightarrow> distinct (nxt_rbtree_insert h tr n)"
  by (induction tr) auto

lemma commit_step_frame [simp]:
  "now (nxt_timer_commit_step r e) = now e"
  "minimum (nxt_timer_commit_step r e) = minimum e"
  "mchanges (nxt_timer_commit_step r e) = mchanges e"
  "nchanges (nxt_timer_commit_step r e) = nchanges e"
  "changes (nxt_timer_commit_step r e) = changes e"
  "work (nxt_timer_commit_step r e) = work e"
  by (simp_all add: nxt_timer_commit_step_def nxt_timer_commit_switch_def Let_def
        split: nxt_timer_operation_t.splits)

lemma commit_step_other:
  "q \<noteq> timer r \<Longrightarrow> heap (nxt_timer_commit_step r e) q = heap e q"
  by (simp add: nxt_timer_commit_step_def nxt_timer_commit_switch_def Let_def
        split: nxt_timer_operation_t.splits)

lemma commit_step_state:
  "state (heap (nxt_timer_commit_step r e) (timer r)) =
     (if change r = NXT_TIMER_ADD then NXT_TIMER_WAITING else NXT_TIMER_DISABLED)"
  by (simp add: nxt_timer_commit_step_def nxt_timer_commit_switch_def Let_def
        split: nxt_timer_operation_t.splits)

lemma commit_step_in_tree:
  "in_tree (heap (nxt_timer_commit_step r e) (timer r)) =
     (case change r of NXT_TIMER_ADD \<Rightarrow> True | NXT_TIMER_DELETE \<Rightarrow> False
      | NXT_TIMER_DISABLE \<Rightarrow> in_tree (heap e (timer r)))"
  by (simp add: nxt_timer_commit_step_def nxt_timer_commit_switch_def Let_def nxt_timer_is_in_tree_def
        split: nxt_timer_operation_t.splits)

lemma commit_step_precision:
  "precision (heap (nxt_timer_commit_step r e) q) = precision (heap e q)"
  "work_queue (heap (nxt_timer_commit_step r e) q) = work_queue (heap e q)"
  by (simp_all add: nxt_timer_commit_step_def nxt_timer_commit_switch_def Let_def
        split: nxt_timer_operation_t.splits)

lemma commit_step_tree_inv:
  "tree_inv e \<Longrightarrow> tree_inv (nxt_timer_commit_step r e)"
  unfolding tree_inv_def
  by (auto simp add: nxt_timer_commit_step_def nxt_timer_commit_switch_def Let_def nxt_timer_is_in_tree_def
        nxt_rbtree_delete_def distinct_insert
        split: nxt_timer_operation_t.splits)

lemma in_tree_update_idem: "in_tree t = b \<Longrightarrow> t\<lparr>in_tree := b\<rparr> = t"
  by auto

lemma commit_step_eq_spec:
  assumes "tree_inv e" and "\<not> record_overflows r e"
  shows "nxt_timer_commit_step r e = commit_record_spec r e"
proof -
  from assms have m: "\<And>p. in_tree (heap e p) = (p \<in> set (tree e))"
    by (simp add: tree_inv_def)
  show ?thesis
  proof (cases "change r")
    case NXT_TIMER_ADD
    have ov: "timer r \<in> set (tree e) \<Longrightarrow>
                sint (ch_time r - time (heap e (timer r))) \<noteq> - (2 ^ 31)"
      using assms(2) NXT_TIMER_ADD m [of "timer r"] by (simp add: record_overflows_def)
    from NXT_TIMER_ADD show ?thesis
      using ov
      by (auto simp add: nxt_timer_commit_step_def nxt_timer_commit_switch_def
            commit_record_spec_def Let_def nxt_timer_is_in_tree_def nxt_rbtree_delete_def
            nxt_abs_sint_less nxt_msec_diff_def m timer_update_def remove1_idem
            intro!: arg_cong2[where f="\<lambda>a b. e\<lparr>tree := a, heap := b\<rparr>"] insert_cong_time)
  next
    case NXT_TIMER_DISABLE
    then show ?thesis
      by (simp add: nxt_timer_commit_step_def nxt_timer_commit_switch_def
            commit_record_spec_def Let_def timer_update_def)
  next
    case NXT_TIMER_DELETE
    show ?thesis
    proof (cases "timer r \<in> set (tree e)")
      case True
      with NXT_TIMER_DELETE show ?thesis
        by (simp add: nxt_timer_commit_step_def nxt_timer_commit_switch_def
            commit_record_spec_def Let_def nxt_timer_is_in_tree_def nxt_rbtree_delete_def
            m timer_update_def)
    next
      case False
      then have idem: "(heap e (timer r))\<lparr>in_tree := False\<rparr> = heap e (timer r)"
        using m [of "timer r"] by (intro in_tree_update_idem) simp
      have "commit_record_spec r e
              = e\<lparr>heap := (heap e)(timer r := ((heap e (timer r))\<lparr>in_tree := False\<rparr>)
                                               \<lparr>state := NXT_TIMER_DISABLED\<rparr>)\<rparr>"
        using NXT_TIMER_DELETE False
        by (simp add: commit_record_spec_def Let_def remove1_idem)
      also have "\<dots> = nxt_timer_commit_step r e"
        using NXT_TIMER_DELETE False unfolding idem
        by (simp add: nxt_timer_commit_step_def nxt_timer_commit_switch_def
            Let_def nxt_timer_is_in_tree_def m timer_update_def)
      finally show ?thesis by simp
    qed
  qed
qed

lemma commit_loop_tree_inv:
  "tree_inv e \<Longrightarrow> tree_inv (nxt_timer_commit_loop rs e)"
  by (induction rs arbitrary: e) (simp_all add: commit_step_tree_inv)

lemma commit_loop_eq_spec:
  "tree_inv e \<Longrightarrow> no_overflow_records rs e \<Longrightarrow>
     nxt_timer_commit_loop rs e = foldl (\<lambda>e r. commit_record_spec r e) e rs"
proof (induction rs arbitrary: e)
  case Nil
  then show ?case by simp
next
  case (Cons r rs)
  have "tree_inv (nxt_timer_commit_step r e)"
    using Cons.prems(1) by (rule commit_step_tree_inv)
  moreover have "no_overflow_records rs (nxt_timer_commit_step r e)"
    using Cons.prems(2) by simp
  ultimately show ?case
    using Cons.IH [of "nxt_timer_commit_step r e"] Cons.prems
    by (simp add: commit_step_eq_spec)
qed

lemma commit_loop_append:
  "nxt_timer_commit_loop (xs @ ys) e = nxt_timer_commit_loop ys (nxt_timer_commit_loop xs e)"
  by (induction xs arbitrary: e) simp_all

lemma commit_loop_frame [simp]:
  "now (nxt_timer_commit_loop rs e) = now e"
  "minimum (nxt_timer_commit_loop rs e) = minimum e"
  "mchanges (nxt_timer_commit_loop rs e) = mchanges e"
  "nchanges (nxt_timer_commit_loop rs e) = nchanges e"
  "changes (nxt_timer_commit_loop rs e) = changes e"
  "work (nxt_timer_commit_loop rs e) = work e"
  by (induction rs arbitrary: e) simp_all

lemma commit_loop_other:
  "q \<notin> timer ` set rs \<Longrightarrow> heap (nxt_timer_commit_loop rs e) q = heap e q"
  by (induction rs arbitrary: e) (simp_all add: commit_step_other)

lemma commit_loop_precision [simp]:
  "precision (heap (nxt_timer_commit_loop rs e) q) = precision (heap e q)"
  "work_queue (heap (nxt_timer_commit_loop rs e) q) = work_queue (heap e q)"
  by (induction rs arbitrary: e) (simp_all add: commit_step_precision)

lemma commit_loop_not_changing:
  "q \<in> timer ` set rs \<Longrightarrow> state (heap (nxt_timer_commit_loop rs e) q) \<noteq> NXT_TIMER_CHANGING"
proof (induction rs arbitrary: e rule: rev_induct)
  case Nil
  then show ?case by simp
next
  case (snoc r rs)
  show ?case
  proof (cases "timer r = q")
    case True
    then show ?thesis
      using commit_step_state [of r "nxt_timer_commit_loop rs e"]
      by (simp add: commit_loop_append)
  next
    case False
    with snoc.prems have "q \<in> timer ` set rs" by auto
    from snoc.IH [OF this, of e] False show ?thesis
      by (simp add: commit_loop_append commit_step_other)
  qed
qed

text \<open>The batch fields do not influence a commit step.\<close>

lemma commit_step_batch_update:
  "nxt_timer_commit_step r (e\<lparr>nchanges := k\<rparr>) = (nxt_timer_commit_step r e)\<lparr>nchanges := k\<rparr>"
  "nxt_timer_commit_step r (e\<lparr>changes := a\<rparr>) = (nxt_timer_commit_step r e)\<lparr>changes := a\<rparr>"
  by (simp_all add: nxt_timer_commit_step_def nxt_timer_commit_switch_def Let_def timer_update_def
        split: nxt_timer_operation_t.splits)

lemma commit_step_core: "core (nxt_timer_commit_step r e) = nxt_timer_commit_step r (core e)"
  by (simp add: core_def commit_step_batch_update)

lemma commit_loop_core: "core (nxt_timer_commit_loop rs e) = nxt_timer_commit_loop rs (core e)"
  by (induction rs arbitrary: e) (simp_all add: commit_step_core)

lemma core_simps [simp]:
  "heap (core e) = heap e" "tree (core e) = tree e" "now (core e) = now e"
  "minimum (core e) = minimum e" "work (core e) = work e" "mchanges (core e) = mchanges e"
  "core (e\<lparr>nchanges := k\<rparr>) = core e" "core (e\<lparr>changes := a\<rparr>) = core e"
  "core (timer_update p f e) = timer_update p f (core e)"
  by (simp_all add: core_def timer_update_def)

text \<open>A commit step does not read the state of any timer, and overwrites its own.\<close>

lemma commit_step_state_update:
  "nxt_timer_commit_step r (timer_update p (\<lambda>t. t\<lparr>state := s\<rparr>) e) =
     (if timer r = p then nxt_timer_commit_step r e
      else timer_update p (\<lambda>t. t\<lparr>state := s\<rparr>) (nxt_timer_commit_step r e))"
proof (cases "timer r = p")
  case True
  have ins: "\<And>h tr f. nxt_rbtree_insert (h(p := (h p)\<lparr>state := f, time := ch_time r\<rparr>)) tr p
                = nxt_rbtree_insert (h(p := (h p)\<lparr>time := ch_time r\<rparr>)) tr p"
    by (rule insert_cong_time) simp
  from True show ?thesis
    by (cases "change r")
       (simp_all add: nxt_timer_commit_step_def nxt_timer_commit_switch_def Let_def
          timer_update_def nxt_timer_is_in_tree_def ins)
next
  case False
  have ins: "\<And>h tr f. nxt_rbtree_insert (h(p := (h p)\<lparr>state := f\<rparr>,
                                 timer r := (h (timer r))\<lparr>time := ch_time r\<rparr>)) tr (timer r)
                = nxt_rbtree_insert (h(timer r := (h (timer r))\<lparr>time := ch_time r\<rparr>)) tr (timer r)"
    by (rule insert_cong_time) simp
  from False show ?thesis
    by (cases "change r")
       (auto simp add: nxt_timer_commit_step_def nxt_timer_commit_switch_def Let_def
          timer_update_def nxt_timer_is_in_tree_def ins fun_upd_twist)
qed

lemma find_loop_eq_spec:
  "nxt_timer_find_loop ns e =
     (case List.find (\<lambda>p. state (heap e p) \<noteq> NXT_TIMER_DISABLED) ns of
        Some p \<Rightarrow>
          (word_of_int (max (sint (time (heap e p) - now e)) 0),
           e\<lparr>minimum := time (heap e p)\<rparr>)
      | None \<Rightarrow> (NXT_INFINITE_MSEC, e\<lparr>minimum := now e + 86400000\<rparr>))"
  by (induction ns) (simp_all add: Let_def nxt_max_def nxt_msec_diff_def max_def)

lemma changes_commit_Some:
  "nchanges e \<le> length (changes e) \<Longrightarrow>
     nxt_timer_changes_commit e = Some ((settle e)\<lparr>nchanges := 0\<rparr>)"
  by (simp add: nxt_timer_changes_commit_def settle_def)

lemma expire_loop_frame [simp]:
  "now (nxt_timer_expire_loop nw ns e) = now e"
  "minimum (nxt_timer_expire_loop nw ns e) = minimum e"
  "mchanges (nxt_timer_expire_loop nw ns e) = mchanges e"
  "nchanges (nxt_timer_expire_loop nw ns e) = nchanges e"
  "changes (nxt_timer_expire_loop nw ns e) = changes e"
  by (induction ns arbitrary: e) (simp_all add: Let_def)

lemma expire_loop_eq_spec:
  assumes "distinct ns" and "tree e = ns"
  shows "nxt_timer_expire_loop nw ns e =
           e\<lparr>tree := dropWhile (is_due e nw) ns,
             heap := (\<lambda>p. if p \<in> set (takeWhile (is_due e nw) ns)
                           then (heap e p)\<lparr>in_tree := False,
                                  state := (if state (heap e p) = NXT_TIMER_DISABLED
                                            then NXT_TIMER_DISABLED else NXT_TIMER_ENQUEUED)\<rparr>
                           else heap e p),
             work := work e @ map (\<lambda>p. (work_queue (heap e p), p))
                                  (filter (\<lambda>p. state (heap e p) \<noteq> NXT_TIMER_DISABLED)
                                     (takeWhile (is_due e nw) ns))\<rparr>"
  using assms
proof (induction ns arbitrary: e)
  case Nil
  then show ?case by simp
next
  case (Cons n ns)
  show ?case
  proof (cases "is_due e nw n")
    case False
    then show ?thesis
      using Cons.prems by (simp add: is_due_def nxt_msec_diff_def)
  next
    case True
    define e3 where "e3 =
      (let e1 = e\<lparr>tree := nxt_rbtree_delete (tree e) n\<rparr>;
           e2 = timer_update n (\<lambda>t. t\<lparr>in_tree := False\<rparr>) e1
       in if state (heap e2 n) \<noteq> NXT_TIMER_DISABLED
          then (timer_update n (\<lambda>t. t\<lparr>state := NXT_TIMER_ENQUEUED\<rparr>) e2)
                 \<lparr>work := work e2 @ [(work_queue (heap e2 n), n)]\<rparr>
          else e2)"
    have step: "nxt_timer_expire_loop nw (n # ns) e = nxt_timer_expire_loop nw ns e3"
      using True by (simp add: e3_def is_due_def nxt_msec_diff_def Let_def)
    have n_notin: "n \<notin> set ns" and dist: "distinct ns"
      using Cons.prems by simp_all
    have tree3: "tree e3 = ns"
      using Cons.prems by (simp add: e3_def Let_def nxt_rbtree_delete_def)
    have heap3: "heap e3 = (heap e)(n := (heap e n)\<lparr>in_tree := False,
                    state := (if state (heap e n) = NXT_TIMER_DISABLED
                              then NXT_TIMER_DISABLED else NXT_TIMER_ENQUEUED)\<rparr>)"
      by (auto simp add: e3_def Let_def timer_update_def)
    have work3: "work e3 = work e @ (if state (heap e n) \<noteq> NXT_TIMER_DISABLED
                                      then [(work_queue (heap e n), n)] else [])"
      by (simp add: e3_def Let_def)
    have due3: "\<And>p. p \<in> set ns \<Longrightarrow> is_due e3 nw p = is_due e nw p"
      using n_notin by (auto simp add: is_due_def heap3)
    have tw: "takeWhile (is_due e3 nw) ns = takeWhile (is_due e nw) ns"
      using due3 by (intro takeWhile_cong) simp_all
    have dw: "dropWhile (is_due e3 nw) ns = dropWhile (is_due e nw) ns"
      using due3 by (intro dropWhile_cong) simp_all
    have sub: "set (takeWhile (is_due e nw) ns) \<subseteq> set ns"
      by (auto dest: set_takeWhileD)
    have other: "\<And>p. p \<in> set (takeWhile (is_due e nw) ns) \<Longrightarrow> heap e3 p = heap e p"
      using sub n_notin by (auto simp add: heap3)
    have rest: "e3\<lparr>tree := e3_tree, heap := e3_heap, work := e3_work\<rparr>
                  = e\<lparr>tree := e3_tree, heap := e3_heap, work := e3_work\<rparr>"
      for e3_tree e3_heap e3_work
      by (simp add: e3_def Let_def timer_update_def)
    show ?thesis
      unfolding step Cons.IH [OF dist tree3] tw dw rest
      using True n_notin sub other
      by (auto simp add: work3 heap3 fun_eq_iff
            intro!: arg_cong2 [where f = "\<lambda>h w. e\<lparr>tree := _, heap := h, work := w\<rparr>"]
                    filter_cong map_cong)
  qed
qed

lemma timer_expire_eq_spec:
  assumes "distinct (tree e)"
  shows "nxt_timer_expire e nw = expire_spec e nw"
proof (cases "0 < sint (minimum e - nw)")
  case True
  then show ?thesis
    by (simp add: nxt_timer_expire_def expire_spec_def Let_def nxt_msec_diff_def)
next
  case False
  have due: "is_due (e\<lparr>now := nw\<rparr>) nw = is_due e nw"
    by (simp add: is_due_def fun_eq_iff)
  from False show ?thesis
    using assms expire_loop_eq_spec [of "tree e" "e\<lparr>now := nw\<rparr>" nw]
    by (simp add: nxt_timer_expire_def expire_spec_def Let_def nxt_msec_diff_def due cong: if_cong)
qed

lemma sint_neg_small:
  assumes "0 < d" "d < 2 ^ 31"
  shows "sint (- (word_of_int d :: 32 word)) = - d"
proof -
  have "- (word_of_int d :: 32 word) = word_of_int (- d)"
    by simp
  then have "sint (- (word_of_int d :: 32 word)) = signed_take_bit (LENGTH(32) - 1) (- d)"
    by (simp only: sint_sbintrunc')
  also have "\<dots> = - d"
    using assms by (intro signed_take_bit_int_eq_self) simp_all
  finally show ?thesis .
qed

lemma settle_frame [simp]:
  "now (settle e) = now e" "minimum (settle e) = minimum e" "mchanges (settle e) = mchanges e"
  "nchanges (settle e) = nchanges e" "changes (settle e) = changes e" "work (settle e) = work e"
  by (simp_all add: settle_def)

lemma flushed_frame [simp]:
  "now (flushed e) = now e" "minimum (flushed e) = minimum e" "mchanges (flushed e) = mchanges e"
  "changes (flushed e) = changes e" "work (flushed e) = work e"
  by (simp_all add: flushed_def)

lemma pending_nil [simp]: "pending (e\<lparr>nchanges := 0\<rparr>) = []"
  by (simp add: pending_def)

lemma pending_flushed:
  "pending (flushed e) = (if nchanges e < mchanges e then pending e else [])"
  by (simp add: flushed_def)

lemma nchanges_flushed:
  "batch_wf e \<Longrightarrow> nchanges (flushed e) < mchanges e"
  by (simp add: flushed_def batch_wf_def)

lemma timer_change_Some:
  assumes "batch_wf e"
  shows "nxt_timer_change e p c tm =
           Some ((timer_update p (\<lambda>t. t\<lparr>state := NXT_TIMER_CHANGING\<rparr>) (flushed e))
                   \<lparr>changes := (changes e)[nchanges (flushed e) :=
                                   \<lparr>change = c, ch_time = tm, timer = p\<rparr>],
                     nchanges := nchanges (flushed e) + 1\<rparr>)"
  using assms
  by (auto simp add: nxt_timer_change_def nxt_timer_changes_commit_def flushed_def batch_wf_def
        settle_def Let_def)

lemma pending_append:
  "n < length a \<Longrightarrow> pending (e\<lparr>changes := a[n := r], nchanges := Suc n\<rparr>) = take n a @ [r]"
  by (simp add: pending_def take_Suc_conv_app_nth)

lemma timer_change_pending:
  assumes "batch_wf e" and "nxt_timer_change e p c tm = Some e'"
  shows "pending e' = pending (flushed e) @ [\<lparr>change = c, ch_time = tm, timer = p\<rparr>]"
proof -
  have lt: "nchanges (flushed e) < length (changes e)"
    using assms(1) nchanges_flushed [OF assms(1)] by (simp add: batch_wf_def)
  have "take (nchanges (flushed e)) (changes e) = pending (flushed e)"
    by (simp add: pending_def)
  with assms lt show ?thesis
    by (auto simp add: timer_change_Some pending_append)
qed

lemma timer_change_batch_wf:
  assumes "batch_wf e" and "nxt_timer_change e p c tm = Some e'"
  shows "batch_wf e'"
  using assms nchanges_flushed [OF assms(1)]
  by (auto simp add: timer_change_Some batch_wf_def)

section \<open>Preservation of the invariants\<close>

lemma state_update_engine_inv:
  assumes "engine_inv e" and "state (heap e p) \<noteq> NXT_TIMER_CHANGING" and "s \<noteq> NXT_TIMER_CHANGING"
  shows "engine_inv (timer_update p (\<lambda>t. t\<lparr>state := s\<rparr>) e)"
  using assms
  by (auto simp add: engine_inv_def batch_wf_def tree_inv_def pending_inv_def changing_inv_def)

lemma settle_not_changing:
  assumes "changing_inv e"
  shows "state (heap (settle e) q) \<noteq> NXT_TIMER_CHANGING"
proof (cases "q \<in> timer ` set (pending e)")
  case True
  then show ?thesis
    unfolding settle_def by (rule commit_loop_not_changing)
next
  case False
  then have "heap (settle e) q = heap e q"
    unfolding settle_def by (rule commit_loop_other)
  with False assms show ?thesis
    by (auto simp add: changing_inv_def)
qed

lemma settle_tree_inv: "tree_inv e \<Longrightarrow> tree_inv (settle e)"
  unfolding settle_def by (rule commit_loop_tree_inv)

lemma tree_inv_batch_update [simp]:
  "tree_inv (e\<lparr>nchanges := k\<rparr>) = tree_inv e"
  "tree_inv (e\<lparr>changes := a\<rparr>) = tree_inv e"
  "tree_inv (e\<lparr>minimum := m\<rparr>) = tree_inv e"
  "tree_inv (e\<lparr>now := m\<rparr>) = tree_inv e"
  "tree_inv (timer_update p (\<lambda>t. t\<lparr>state := s\<rparr>) e) = tree_inv e"
  by (auto simp add: tree_inv_def)

lemma changes_commit_engine_inv:
  assumes "engine_inv e" and "nxt_timer_changes_commit e = Some e'"
  shows "engine_inv e'"
proof -
  from assms(1) have wf: "batch_wf e" and ti: "tree_inv e" and ci: "changing_inv e"
    by (simp_all add: engine_inv_def)
  from wf have "nchanges e \<le> length (changes e)"
    by (simp add: batch_wf_def)
  with assms(2) have e': "e' = (settle e)\<lparr>nchanges := 0\<rparr>"
    by (simp add: changes_commit_Some)
  have "batch_wf e'"
    using wf by (simp add: e' batch_wf_def)
  moreover have "tree_inv e'"
    using settle_tree_inv [OF ti] by (simp add: e')
  moreover have "pending_inv e'"
    by (simp add: e' pending_inv_def)
  moreover have "changing_inv e'"
    using settle_not_changing [OF ci] by (simp add: e' changing_inv_def)
  ultimately show ?thesis
    by (simp add: engine_inv_def)
qed

lemma flushed_engine_inv:
  assumes "engine_inv e"
  shows "engine_inv (flushed e)"
proof (cases "nchanges e < mchanges e")
  case True
  with assms show ?thesis by (simp add: flushed_def)
next
  case False
  from assms have "nchanges e \<le> length (changes e)"
    by (simp add: engine_inv_def batch_wf_def)
  then have "nxt_timer_changes_commit e = Some (flushed e)"
    using False by (simp add: changes_commit_Some flushed_def)
  with assms show ?thesis
    by (rule changes_commit_engine_inv)
qed

lemma timer_change_engine_inv:
  assumes "engine_inv e" and "nxt_timer_change e p c tm = Some e'"
  shows "engine_inv e'"
proof -
  from assms(1) have wf: "batch_wf e"
    by (simp add: engine_inv_def)
  have f: "engine_inv (flushed e)"
    using assms(1) by (rule flushed_engine_inv)
  have pe: "pending e' = pending (flushed e) @ [\<lparr>change = c, ch_time = tm, timer = p\<rparr>]"
    using wf assms(2) by (rule timer_change_pending)
  have he: "heap e' = (heap (flushed e))(p := (heap (flushed e) p)\<lparr>state := NXT_TIMER_CHANGING\<rparr>)"
    and te: "tree e' = tree (flushed e)"
    using assms(2) by (auto simp add: timer_change_Some [OF wf])
  have "batch_wf e'"
    using wf assms(2) by (rule timer_change_batch_wf)
  moreover have "tree_inv e'"
    using f by (simp add: engine_inv_def tree_inv_def he te)
  moreover have "pending_inv e'"
    using f by (auto simp add: engine_inv_def pending_inv_def pe he)
  moreover have "changing_inv e'"
    using f by (auto simp add: engine_inv_def changing_inv_def pe he)
  ultimately show ?thesis
    by (simp add: engine_inv_def)
qed

lemma timer_add_engine_inv:
  assumes "engine_inv e" and "nxt_timer_add e p x = Some e'"
  shows "engine_inv e'"
  using assms
  by (auto simp add: nxt_timer_add_def Let_def
        intro: state_update_engine_inv timer_change_engine_inv split: if_splits)

lemma timer_disable_engine_inv:
  assumes "engine_inv e" and "nxt_timer_disable e p = Some e'"
  shows "engine_inv e'"
  using assms
  by (auto simp add: nxt_timer_disable_def
        intro: state_update_engine_inv timer_change_engine_inv split: if_splits)

lemma timer_delete_engine_inv:
  assumes "engine_inv e" and "nxt_timer_delete e p = Some (b, e')"
  shows "engine_inv e'"
  using assms
  by (auto simp add: nxt_timer_delete_def Let_def
        intro: state_update_engine_inv timer_change_engine_inv split: if_splits option.splits)

lemma engine_inv_minimum [simp]: "engine_inv (e\<lparr>minimum := m\<rparr>) = engine_inv e"
  by (simp add: engine_inv_def batch_wf_def pending_inv_def changing_inv_def pending_def)

lemma find_spec_engine_inv: "engine_inv e \<Longrightarrow> engine_inv (snd (find_spec e))"
  by (simp add: find_spec_def split: option.splits)

lemma timer_find_engine_inv:
  assumes "engine_inv e" and "nxt_timer_find e = Some (w, e')"
  shows "engine_inv e'"
proof -
  from assms(2) obtain e1 where
    e1: "(if nchanges e \<noteq> 0 then nxt_timer_changes_commit e else Some e) = Some e1"
    and r: "nxt_timer_find_loop (tree e1) e1 = (w, e')"
    by (auto simp add: nxt_timer_find_def split: option.splits)
  have "engine_inv e1"
    using e1 assms(1) by (auto intro: changes_commit_engine_inv split: if_splits)
  then have "engine_inv (snd (find_spec e1))"
    by (rule find_spec_engine_inv)
  then show ?thesis
    using r by (simp add: find_loop_eq_spec find_spec_def)
qed

lemma timer_handler_engine_inv:
  assumes "engine_inv e" and "nxt_timer_handler e p = (b, e')"
  shows "engine_inv e'"
  using assms
  by (auto simp add: nxt_timer_handler_def intro: state_update_engine_inv split: if_splits)

lemma set_dropWhile_distinct:
  "distinct xs \<Longrightarrow> set (dropWhile P xs) = set xs - set (takeWhile P xs)"
  by (induction xs) auto

lemma timer_expire_tree_inv:
  assumes "tree_inv e"
  shows "tree_inv (nxt_timer_expire e nw)"
proof -
  from assms have d: "distinct (tree e)"
    by (simp add: tree_inv_def)
  have sub: "set (takeWhile (is_due e nw) (tree e)) \<subseteq> set (tree e)"
    by (auto dest: set_takeWhileD)
  show ?thesis
    using assms sub
    by (auto simp add: timer_expire_eq_spec [OF d] expire_spec_def tree_inv_def Let_def
          set_dropWhile_distinct [OF d])
qed

lemma timer_expire_engine_inv:
  assumes "engine_inv e"
  shows "engine_inv (nxt_timer_expire e nw)"
proof -
  from assms have d: "distinct (tree e)"
    by (simp add: engine_inv_def tree_inv_def)
  have pe: "pending (expire_spec e nw) = pending e"
    by (simp add: expire_spec_def pending_def Let_def)
  have "batch_wf (nxt_timer_expire e nw)"
    using assms by (simp add: timer_expire_eq_spec [OF d] expire_spec_def engine_inv_def
        batch_wf_def Let_def)
  moreover have "tree_inv (nxt_timer_expire e nw)"
    using assms by (simp add: engine_inv_def timer_expire_tree_inv)
  moreover have "pending_inv (nxt_timer_expire e nw)"
    using assms unfolding timer_expire_eq_spec [OF d] engine_inv_def pending_inv_def pe
    by (auto simp add: expire_spec_def Let_def)
  moreover have "changing_inv (nxt_timer_expire e nw)"
    using assms unfolding timer_expire_eq_spec [OF d] engine_inv_def changing_inv_def pe
    by (auto simp add: expire_spec_def Let_def split: if_splits)
  ultimately show ?thesis
    by (simp add: engine_inv_def)
qed

lemma engine_step_engine_inv:
  assumes "engine_step e e'" and "engine_inv e"
  shows "engine_inv e'"
  using assms
proof (cases rule: engine_step.cases)
  case (step_add p timeout)
  with assms(2) show ?thesis by (auto intro: timer_add_engine_inv)
next
  case (step_disable p)
  with assms(2) show ?thesis by (auto intro: timer_disable_engine_inv)
next
  case (step_delete p b)
  with assms(2) show ?thesis by (auto intro: timer_delete_engine_inv)
next
  case step_commit
  with assms(2) show ?thesis by (auto intro: changes_commit_engine_inv)
next
  case (step_find w)
  with assms(2) show ?thesis by (auto intro: timer_find_engine_inv)
next
  case (step_expire nw)
  with assms(2) show ?thesis by (auto intro: timer_expire_engine_inv)
next
  case (step_handler p b)
  with assms(2) show ?thesis by (auto intro: timer_handler_engine_inv)
qed

lemma timers_init_engine_inv:
  assumes "nchanges e0 = 0"
    and "\<forall>p. \<not> in_tree (heap e0 p) \<and> state (heap e0 p) = NXT_TIMER_DISABLED"
    and "1 \<le> mch" and "length a = mch"
    and "nxt_timers_init e0 mch (Some a) = (NXT_OK, e)"
  shows "engine_inv e"
  using assms
  by (auto simp add: nxt_timers_init_def Let_def engine_inv_def batch_wf_def tree_inv_def
        pending_inv_def changing_inv_def pending_def)

lemma reachable_engine_inv: "reachable e \<Longrightarrow> engine_inv e"
proof (induction rule: reachable.induct)
  case (reachable_init e0 mch a e)
  then show ?case by (rule timers_init_engine_inv)
next
  case (reachable_step e e')
  then show ?case by (auto intro: engine_step_engine_inv)
qed

text \<open>Each kind of step keeps the membership invariant on its own.\<close>

lemma changes_commit_tree_inv:
  assumes "tree_inv e" and "nxt_timer_changes_commit e = Some e'"
  shows "tree_inv e'"
  using assms
  by (auto simp add: nxt_timer_changes_commit_def commit_loop_tree_inv split: if_splits)

lemma timer_change_tree_inv:
  assumes "tree_inv e" and "nxt_timer_change e p c tm = Some e'"
  shows "tree_inv e'"
proof -
  from assms(2) obtain e1 where
    e1: "(if mchanges e \<le> nchanges e then nxt_timer_changes_commit e else Some e) = Some e1"
    and e': "e' = (timer_update p (\<lambda>t. t\<lparr>state := NXT_TIMER_CHANGING\<rparr>) e1)
                    \<lparr>changes := (changes e1)[nchanges e1 :=
                                    \<lparr>change = c, ch_time = tm, timer = p\<rparr>],
                      nchanges := nchanges e1 + 1\<rparr>"
    by (auto simp add: nxt_timer_change_def Let_def split: option.splits if_splits)
  have "tree_inv e1"
    using e1 assms(1) by (auto intro: changes_commit_tree_inv split: if_splits)
  then show ?thesis
    by (simp add: e')
qed

lemma engine_step_tree_inv:
  assumes "engine_step e e'" and "tree_inv e"
  shows "tree_inv e'"
  using assms
proof (cases rule: engine_step.cases)
  case (step_add p timeout)
  with assms(2) show ?thesis
    by (auto simp add: nxt_timer_add_def Let_def intro: timer_change_tree_inv split: if_splits)
next
  case (step_disable p)
  with assms(2) show ?thesis
    by (auto simp add: nxt_timer_disable_def intro: timer_change_tree_inv split: if_splits)
next
  case (step_delete p b)
  with assms(2) show ?thesis
    by (auto simp add: nxt_timer_delete_def Let_def intro: timer_change_tree_inv
          split: if_splits option.splits)
next
  case step_commit
  with assms(2) show ?thesis by (auto intro: changes_commit_tree_inv)
next
  case (step_find w)
  then obtain e1 where
    e1: "(if nchanges e \<noteq> 0 then nxt_timer_changes_commit e else Some e) = Some e1"
    and r: "find_spec e1 = (w, e')"
    by (auto simp add: nxt_timer_find_def find_loop_eq_spec find_spec_def split: option.splits)
  have "tree_inv e1"
    using e1 assms(2) by (auto intro: changes_commit_tree_inv split: if_splits)
  then show ?thesis
    using r by (auto simp add: find_spec_def split: option.splits)
next
  case (step_expire nw)
  with assms(2) show ?thesis by (auto intro: timer_expire_tree_inv)
next
  case (step_handler p b)
  with assms(2) show ?thesis
    by (auto simp add: nxt_timer_handler_def split: if_splits)
qed

section \<open>The settled engine\<close>

lemma commit_loop_state_update_other:
  "p \<notin> timer ` set rs \<Longrightarrow>
     nxt_timer_commit_loop rs (timer_update p (\<lambda>t. t\<lparr>state := s\<rparr>) e)
       = timer_update p (\<lambda>t. t\<lparr>state := s\<rparr>) (nxt_timer_commit_loop rs e)"
  by (induction rs arbitrary: e) (simp_all add: commit_step_state_update)

lemma commit_loop_state_update_same:
  "p \<in> timer ` set rs \<Longrightarrow>
     nxt_timer_commit_loop rs (timer_update p (\<lambda>t. t\<lparr>state := s\<rparr>) e)
       = nxt_timer_commit_loop rs e"
proof (induction rs arbitrary: e)
  case Nil
  then show ?case by simp
next
  case (Cons r rs)
  show ?case
  proof (cases "timer r = p")
    case True
    then show ?thesis by (simp add: commit_step_state_update)
  next
    case False
    with Cons.prems have "p \<in> timer ` set rs" by auto
    from Cons.IH [OF this] False show ?thesis
      by (simp add: commit_step_state_update)
  qed
qed

lemma commit_step_after_state_update:
  "timer r = p \<Longrightarrow>
     nxt_timer_commit_step r (nxt_timer_commit_loop rs (timer_update p (\<lambda>t. t\<lparr>state := s\<rparr>) e))
       = nxt_timer_commit_step r (nxt_timer_commit_loop rs e)"
  by (cases "p \<in> timer ` set rs")
     (simp_all add: commit_loop_state_update_same commit_loop_state_update_other
        commit_step_state_update)

lemma commit_loop_batch_update:
  "nxt_timer_commit_loop rs (e\<lparr>nchanges := k\<rparr>) = (nxt_timer_commit_loop rs e)\<lparr>nchanges := k\<rparr>"
  "nxt_timer_commit_loop rs (e\<lparr>changes := a\<rparr>) = (nxt_timer_commit_loop rs e)\<lparr>changes := a\<rparr>"
  by (induction rs arbitrary: e) (simp_all add: commit_step_batch_update)

lemma settle_empty [simp]: "settle (e\<lparr>nchanges := 0\<rparr>) = e\<lparr>nchanges := 0\<rparr>"
  by (simp add: settle_def)

lemma settle_state_update_other:
  "p \<notin> timer ` set (pending e) \<Longrightarrow>
     settle (timer_update p (\<lambda>t. t\<lparr>state := s\<rparr>) e)
       = timer_update p (\<lambda>t. t\<lparr>state := s\<rparr>) (settle e)"
  by (simp add: settle_def commit_loop_state_update_other)

text \<open>
  Appending a record, with or without the flush of a full batch, settles to the settled
  engine with the record applied to it.
\<close>

lemma timer_change_settle:
  assumes "batch_wf e" and "nxt_timer_change e p c tm = Some e'"
  shows "core (settle e')
           = nxt_timer_commit_step \<lparr>change = c, ch_time = tm, timer = p\<rparr> (core (settle e))"
proof -
  let ?r = "\<lparr>change = c, ch_time = tm, timer = p\<rparr>"
  let ?f = "flushed e"
  have e': "e' = (timer_update p (\<lambda>t. t\<lparr>state := NXT_TIMER_CHANGING\<rparr>) ?f)
                   \<lparr>changes := (changes e)[nchanges ?f := ?r], nchanges := nchanges ?f + 1\<rparr>"
    using assms by (simp add: timer_change_Some)
  have pe: "pending e' = pending ?f @ [?r]"
    using assms by (rule timer_change_pending)
  have "settle e' = nxt_timer_commit_loop (pending ?f @ [?r]) e'"
    by (simp add: settle_def pe)
  also have "core \<dots> = nxt_timer_commit_step ?r (nxt_timer_commit_loop (pending ?f)
                           (timer_update p (\<lambda>t. t\<lparr>state := NXT_TIMER_CHANGING\<rparr>) (core ?f)))"
    by (simp add: commit_loop_append commit_step_core commit_loop_core e')
  also have "\<dots> = nxt_timer_commit_step ?r (nxt_timer_commit_loop (pending ?f) (core ?f))"
    by (rule commit_step_after_state_update) simp
  also have "nxt_timer_commit_loop (pending ?f) (core ?f) = core (settle ?f)"
    by (simp add: settle_def commit_loop_core)
  also have "core (settle ?f) = core (settle e)"
    by (simp add: flushed_def)
  finally show ?thesis .
qed

lemma changes_commit_heap_tree:
  assumes "nxt_timer_changes_commit e = Some e'"
  shows "heap e' = heap (core (settle e))" and "tree e' = tree (core (settle e))"
    and "now e' = now e" and "work e' = work e" and "minimum e' = minimum e"
    and "nchanges e' = 0"
  using assms
  by (auto simp add: nxt_timer_changes_commit_def settle_def split: if_splits)

lemma pending_inv_no_record:
  assumes "pending_inv e" and "state (heap e p) \<noteq> NXT_TIMER_CHANGING" and "in_tree (heap e p)"
  shows "p \<notin> timer ` set (pending e)"
  using assms by (auto simp add: pending_inv_def)

lemma timer_change_total:
  "batch_wf e \<Longrightarrow> \<exists>e'. nxt_timer_change e p c tm = Some e'"
  by (simp add: timer_change_Some)

lemma timer_add_total: "batch_wf e \<Longrightarrow> \<exists>e'. nxt_timer_add e p x = Some e'"
  by (simp add: nxt_timer_add_def Let_def timer_change_total)

lemma timer_disable_total: "batch_wf e \<Longrightarrow> \<exists>e'. nxt_timer_disable e p = Some e'"
  by (simp add: nxt_timer_disable_def timer_change_total)

lemma changes_commit_total: "batch_wf e \<Longrightarrow> \<exists>e'. nxt_timer_changes_commit e = Some e'"
  by (simp add: nxt_timer_changes_commit_def batch_wf_def)

lemma timer_find_total: "batch_wf e \<Longrightarrow> \<exists>w e'. nxt_timer_find e = Some (w, e')"
  by (simp add: nxt_timer_find_def nxt_timer_changes_commit_def batch_wf_def)

lemma timer_find_heap_tree:
  assumes "nxt_timer_find e = Some (w, e')"
  shows "heap e' = heap (settle e)" and "tree e' = tree (settle e)" and "work e' = work e"
    and "now e' = now e" and "nchanges e' = 0"
proof -
  from assms obtain e1 where
    e1: "(if nchanges e \<noteq> 0 then nxt_timer_changes_commit e else Some e) = Some e1"
    and r: "find_spec e1 = (w, e')"
    by (auto simp add: nxt_timer_find_def find_loop_eq_spec find_spec_def split: option.splits)
  have s: "heap e1 = heap (settle e) \<and> tree e1 = tree (settle e) \<and> work e1 = work e
           \<and> now e1 = now e \<and> nchanges e1 = 0"
  proof (cases "nchanges e = 0")
    case True
    then have "settle e = e" by (simp add: settle_def pending_def)
    with True e1 show ?thesis by simp
  next
    case False
    with e1 show ?thesis
      by (auto simp add: nxt_timer_changes_commit_def settle_def split: if_splits)
  qed
  from r have "heap e' = heap e1 \<and> tree e' = tree e1 \<and> work e' = work e1 \<and> now e' = now e1
               \<and> nchanges e' = nchanges e1"
    by (auto simp add: find_spec_def split: option.splits)
  with s show "heap e' = heap (settle e)" and "tree e' = tree (settle e)" and "work e' = work e"
    and "now e' = now e" and "nchanges e' = 0"
    by simp_all
qed

lemma expire_loop_disabled:
  assumes "state (heap e p) = NXT_TIMER_DISABLED"
  shows "state (heap (nxt_timer_expire_loop nw ns e) p) = NXT_TIMER_DISABLED
         \<and> (\<exists>ws. work (nxt_timer_expire_loop nw ns e) = work e @ ws \<and> p \<notin> snd ` set ws)"
  using assms
proof (induction ns arbitrary: e)
  case Nil
  then show ?case by simp
next
  case (Cons n ns)
  show ?case
  proof (cases "nxt_msec_diff (time (heap e n)) nw > 0")
    case True
    then show ?thesis using Cons.prems by simp
  next
    case False
    define e3 where "e3 =
      (let e1 = e\<lparr>tree := nxt_rbtree_delete (tree e) n\<rparr>;
           e2 = timer_update n (\<lambda>t. t\<lparr>in_tree := False\<rparr>) e1
       in if state (heap e2 n) \<noteq> NXT_TIMER_DISABLED
          then (timer_update n (\<lambda>t. t\<lparr>state := NXT_TIMER_ENQUEUED\<rparr>) e2)
                 \<lparr>work := work e2 @ [(work_queue (heap e2 n), n)]\<rparr>
          else e2)"
    have step: "nxt_timer_expire_loop nw (n # ns) e = nxt_timer_expire_loop nw ns e3"
      using False by (simp add: e3_def Let_def)
    have st: "state (heap e3 p) = NXT_TIMER_DISABLED"
      using Cons.prems by (auto simp add: e3_def Let_def)
    have w3: "\<exists>ws. work e3 = work e @ ws \<and> p \<notin> snd ` set ws"
      using Cons.prems by (auto simp add: e3_def Let_def)
    from Cons.IH [OF st] w3 show ?thesis
      unfolding step by auto
  qed
qed

lemma expire_not_enqueued:
  assumes "state (heap e p) = NXT_TIMER_DISABLED"
  shows "p \<notin> set (enqueued_by_expire e nw)"
proof (cases "nxt_msec_diff (minimum e) nw > 0")
  case True
  then show ?thesis
    by (simp add: enqueued_by_expire_def nxt_timer_expire_def Let_def)
next
  case False
  have "state (heap (e\<lparr>now := nw\<rparr>) p) = NXT_TIMER_DISABLED"
    using assms by simp
  from expire_loop_disabled [OF this, of nw "tree e"] False show ?thesis
    by (auto simp add: enqueued_by_expire_def nxt_timer_expire_def Let_def)
qed

lemma add_then_disable_settle:
  assumes inv: "engine_inv e" and run: "add_then_disable e p cb = Some e2"
  shows "engine_inv e2 \<and> state (heap (settle e2) p) = NXT_TIMER_DISABLED"
proof -
  from run obtain e1 e1' where
    a: "nxt_timer_add e p 0 = Some e1"
    and m: "(if cb then nxt_timer_changes_commit e1 else Some e1) = Some e1'"
    and d: "nxt_timer_disable e1' p = Some e2"
    by (auto simp add: add_then_disable_def split: option.splits)
  have inv1: "engine_inv e1"
    using inv a by (rule timer_add_engine_inv)
  have inv1': "engine_inv e1'"
    using m inv1 by (auto intro: changes_commit_engine_inv split: if_splits)
  have inv2: "engine_inv e2"
    using inv1' d by (rule timer_disable_engine_inv)
  have wf1': "batch_wf e1'"
    using inv1' by (simp add: engine_inv_def)
  have "state (heap (settle e2) p) = NXT_TIMER_DISABLED"
  proof (cases "state (heap e1' p) = NXT_TIMER_CHANGING")
    case True
    with d have "nxt_timer_change e1' p NXT_TIMER_DISABLE 0 = Some e2"
      by (simp add: nxt_timer_disable_def)
    from timer_change_settle [OF wf1' this]
    have "heap (settle e2) p = heap (nxt_timer_commit_step
             \<lparr>change = NXT_TIMER_DISABLE, ch_time = 0, timer = p\<rparr> (core (settle e1'))) p"
      by (metis core_simps(1))
    then show ?thesis
      using commit_step_state [of "\<lparr>change = NXT_TIMER_DISABLE, ch_time = 0, timer = p\<rparr>"
                                   "core (settle e1')"]
      by simp
  next
    case False
    with d have e2: "e2 = timer_update p (\<lambda>t. t\<lparr>state := NXT_TIMER_DISABLED\<rparr>) e1'"
      by (simp add: nxt_timer_disable_def)
    have "p \<notin> timer ` set (pending e1')"
    proof (cases cb)
      case True
      with m have "nchanges e1' = 0"
        by (auto simp add: nxt_timer_changes_commit_def split: if_splits)
      then show ?thesis by (simp add: pending_def)
    next
      case cbF: False
      with m have eq: "e1' = e1" by simp
      have fast: "state (heap e p) \<noteq> NXT_TIMER_CHANGING \<and> in_tree (heap e p)
                  \<and> e1 = timer_update p (\<lambda>t. t\<lparr>state := NXT_TIMER_WAITING\<rparr>) e"
      proof (rule ccontr)
        assume "\<not> ?thesis"
        with a have "nxt_timer_change e p NXT_TIMER_ADD (now e + 0) = Some e1"
          by (auto simp add: nxt_timer_add_def Let_def nxt_timer_is_in_tree_def split: if_splits)
        then have "state (heap e1 p) = NXT_TIMER_CHANGING"
          using inv by (auto simp add: timer_change_Some engine_inv_def)
        with False eq show False by simp
      qed
      then have "p \<notin> timer ` set (pending e)"
        using inv by (intro pending_inv_no_record) (simp_all add: engine_inv_def)
      with fast eq show ?thesis by simp
    qed
    then show ?thesis
      by (simp add: e2 settle_state_update_other)
  qed
  with inv2 show ?thesis by simp
qed

lemma reachable_R1: "reachable R1"
proof -
  have "nxt_timers_init R0 2 (Some [rec0, rec0]) = (NXT_OK, R1)"
    by (simp add: nxt_timers_init_def R0_def R1_def)
  then show ?thesis
    by (intro reachable_init [of R0 2 "[rec0, rec0]"]) (simp_all add: R0_def heap0_def tmr_def)
qed

lemma reachable_CE1: "reachable CE1"
proof -
  have "nxt_timer_add R1 1 500 = Some CE0"
    by (simp add: nxt_timer_add_def nxt_timer_change_def R1_def CE0_def heap0_def tmr_def
          chg_def timer_update_def nxt_timer_is_in_tree_def)
  then have "engine_step R1 CE0"
    by (rule step_add)
  with reachable_R1 have r0: "reachable CE0"
    by (rule reachable_step)
  have "nxt_timer_find CE0 = Some (500, CE1a)"
    by (simp add: nxt_timer_find_def nxt_timer_changes_commit_def pending_def CE0_def CE1a_def
          nxt_timer_commit_step_def nxt_timer_commit_switch_def nxt_timer_is_in_tree_def
          timer_update_def Let_def chg_def tmr_def heap0_def nxt_max_def nxt_msec_diff_def)
  then have "engine_step CE0 CE1a"
    by (rule step_find)
  with r0 have r1: "reachable CE1a"
    by (rule reachable_step)
  have "nxt_timer_expire CE1a 100 = CE1"
    by (simp add: nxt_timer_expire_def CE1a_def CE1_def Let_def nxt_msec_diff_def)
  then have "engine_step CE1a CE1"
    by (rule step_expire)
  with r1 show ?thesis
    by (rule reachable_step)
qed

lemma add_then_disable_CE1: "add_then_disable CE1 1 False = Some CE2"
  by (simp add: add_then_disable_def nxt_timer_add_def nxt_timer_disable_def
        nxt_timer_change_def CE1_def CE2_def heap0_def tmr_def chg_def timer_update_def
        nxt_timer_is_in_tree_def nxt_abs_def nxt_msec_diff_def Let_def)

lemma enqueued_CE2: "enqueued_by_expire CE2 600 = [1]"
  by (simp add: enqueued_by_expire_def nxt_timer_expire_def CE2_def Let_def nxt_msec_diff_def
        tmr_def heap0_def nxt_rbtree_delete_def timer_update_def)

lemma add_then_disable_reachable:
  assumes "reachable e" and "add_then_disable e p cb = Some e2"
  shows "reachable e2"
proof -
  from assms(2) obtain e1 e1' where
    a: "nxt_timer_add e p 0 = Some e1"
    and m: "(if cb then nxt_timer_changes_commit e1 else Some e1) = Some e1'"
    and d: "nxt_timer_disable e1' p = Some e2"
    by (auto simp add: add_then_disable_def split: option.splits)
  have "reachable e1"
    using assms(1) a by (blast intro: reachable_step step_add)
  then have "reachable e1'"
    using m by (auto intro: reachable_step step_commit split: if_splits)
  then show ?thesis
    using d by (blast intro: reachable_step step_disable)
qed

lemma add_then_disable_total:
  assumes "engine_inv e"
  shows "\<exists>e2. add_then_disable e p cb = Some e2"
proof -
  from assms have "batch_wf e" by (simp add: engine_inv_def)
  then obtain e1 where a: "nxt_timer_add e p 0 = Some e1"
    using timer_add_total by blast
  have inv1: "engine_inv e1"
    using assms a by (rule timer_add_engine_inv)
  then have "batch_wf e1" by (simp add: engine_inv_def)
  then obtain c1 where c: "nxt_timer_changes_commit e1 = Some c1"
    using changes_commit_total by blast
  obtain e1' where m: "(if cb then nxt_timer_changes_commit e1 else Some e1) = Some e1'"
    using c by (cases cb) simp_all
  have "engine_inv e1'"
    using m inv1 by (auto intro: changes_commit_engine_inv split: if_splits)
  then have "batch_wf e1'" by (simp add: engine_inv_def)
  then obtain e2 where "nxt_timer_disable e1' p = Some e2"
    using timer_disable_total by blast
  with a m show ?thesis
    by (simp add: add_then_disable_def)
qed

lemma enqueued_by_expire_subset:
  assumes "tree_inv e" and "p \<in> set (enqueued_by_expire e nw)"
  shows "in_tree (heap e p) \<and> state (heap e p) \<noteq> NXT_TIMER_DISABLED"
proof -
  from assms(1) have d: "distinct (tree e)"
    by (simp add: tree_inv_def)
  have "set (takeWhile (is_due e nw) (tree e)) \<subseteq> set (tree e)"
    by (auto dest: set_takeWhileD)
  with assms show ?thesis
    by (auto simp add: enqueued_by_expire_def timer_expire_eq_spec [OF d] expire_spec_def
          Let_def tree_inv_def split: if_splits)
qed

lemma expire_loop_pending [simp]:
  "pending (nxt_timer_expire_loop nw ns e) = pending e"
  by (simp add: pending_def)

lemma timer_expire_pending: "pending (nxt_timer_expire e nw) = pending e"
  by (simp add: nxt_timer_expire_def Let_def pending_def)

lemma no_pending_no_changing:
  assumes "changing_inv e" and "pending e = []"
  shows "state (heap e p) \<noteq> NXT_TIMER_CHANGING"
  using assms by (auto simp add: changing_inv_def)

lemma commit_step_time:
  "time (heap (nxt_timer_commit_step r e) (timer r)) =
     (if change r = NXT_TIMER_ADD
         \<and> \<not> (in_tree (heap e (timer r))
              \<and> nxt_abs (nxt_msec_diff (ch_time r) (time (heap e (timer r))))
                  < int (precision (heap e (timer r))))
      then ch_time r else time (heap e (timer r)))"
  by (simp add: nxt_timer_commit_step_def nxt_timer_commit_switch_def Let_def
        nxt_timer_is_in_tree_def split: nxt_timer_operation_t.splits)

lemma settle_other: "p \<notin> timer ` set (pending e) \<Longrightarrow> heap (settle e) p = heap e p"
  unfolding settle_def by (rule commit_loop_other)

lemma settle_precision [simp]: "precision (heap (settle e) p) = precision (heap e p)"
  by (simp add: settle_def)

lemma timer_add_frame:
  assumes "batch_wf e" and "nxt_timer_add e p x = Some e1"
  shows "now e1 = now e" and "precision (heap e1 q) = precision (heap e q)"
  using assms
  by (auto simp add: nxt_timer_add_def Let_def timer_change_Some flushed_def settle_def
        split: if_splits)

text \<open>What one \<open>nxt_timer_add\<close> settles to, in terms of the settled engine before it.\<close>

lemma timer_add_settle:
  assumes inv: "engine_inv e" and a: "nxt_timer_add e p x = Some e1"
  shows "state (heap (settle e1) p) = NXT_TIMER_WAITING"
    and "in_tree (heap (settle e1) p)"
    and "time (heap (settle e1) p) =
           (if in_tree (heap (settle e) p)
               \<and> nxt_abs (nxt_msec_diff (now e + x) (time (heap (settle e) p)))
                   < int (precision (heap e p))
            then time (heap (settle e) p) else now e + x)"
proof -
  from inv have wf: "batch_wf e" and pi: "pending_inv e"
    by (simp_all add: engine_inv_def)
  let ?fast = "state (heap e p) \<noteq> NXT_TIMER_CHANGING \<and> in_tree (heap e p)
               \<and> nxt_abs (nxt_msec_diff (now e + x) (time (heap e p))) < int (precision (heap e p))"
  have "state (heap (settle e1) p) = NXT_TIMER_WAITING \<and> in_tree (heap (settle e1) p)
        \<and> time (heap (settle e1) p) =
           (if in_tree (heap (settle e) p)
               \<and> nxt_abs (nxt_msec_diff (now e + x) (time (heap (settle e) p)))
                   < int (precision (heap e p))
            then time (heap (settle e) p) else now e + x)"
  proof (cases ?fast)
    case True
    then have e1: "e1 = timer_update p (\<lambda>t. t\<lparr>state := NXT_TIMER_WAITING\<rparr>) e"
      using a by (simp add: nxt_timer_add_def Let_def nxt_timer_is_in_tree_def)
    have np: "p \<notin> timer ` set (pending e)"
      using pi True by (intro pending_inv_no_record) simp_all
    have "heap (settle e1) p = (heap e p)\<lparr>state := NXT_TIMER_WAITING\<rparr>"
      using np by (simp add: e1 settle_state_update_other settle_other)
    with True np show ?thesis
      by (simp add: settle_other)
  next
    case False
    let ?r = "\<lparr>change = NXT_TIMER_ADD, ch_time = now e + x, timer = p\<rparr>"
    from False a have "nxt_timer_change e p NXT_TIMER_ADD (now e + x) = Some e1"
      by (auto simp add: nxt_timer_add_def Let_def nxt_timer_is_in_tree_def split: if_splits)
    from timer_change_settle [OF wf this]
    have "heap (settle e1) = heap (nxt_timer_commit_step ?r (core (settle e)))"
      by (metis core_simps(1))
    then show ?thesis
      using commit_step_state [of ?r "core (settle e)"]
        commit_step_in_tree [of ?r "core (settle e)"]
        commit_step_time [of ?r "core (settle e)"]
      by simp
  qed
  then show "state (heap (settle e1) p) = NXT_TIMER_WAITING"
    and "in_tree (heap (settle e1) p)"
    and "time (heap (settle e1) p) =
           (if in_tree (heap (settle e) p)
               \<and> nxt_abs (nxt_msec_diff (now e + x) (time (heap (settle e) p)))
                   < int (precision (heap e p))
            then time (heap (settle e) p) else now e + x)"
    by simp_all
qed

lemma msec_diff_shift: "nxt_msec_diff (a + x') (a + x) = nxt_msec_diff x' x"
  by (simp add: nxt_msec_diff_def)

lemma reachable_CX1: "reachable CX1"
proof -
  have "nxt_timer_add R1 1 1000 = Some CX0"
    by (simp add: nxt_timer_add_def nxt_timer_change_def R1_def CX0_def heap0_def tmr_def
          chg_def timer_update_def nxt_timer_is_in_tree_def)
  then have "engine_step R1 CX0"
    by (rule step_add)
  with reachable_R1 have r0: "reachable CX0"
    by (rule reachable_step)
  have "nxt_timer_find CX0 = Some (1000, CX1)"
    by (simp add: nxt_timer_find_def nxt_timer_changes_commit_def pending_def CX0_def CX1_def
          nxt_timer_commit_step_def nxt_timer_commit_switch_def nxt_timer_is_in_tree_def
          timer_update_def Let_def chg_def tmr_def heap0_def nxt_max_def nxt_msec_diff_def)
  then have "engine_step CX0 CX1"
    by (rule step_find)
  with r0 show ?thesis
    by (rule reachable_step)
qed

lemma add_settled_CX1: "add_settled CX1 1 1050 = Some CX1"
  by (simp add: add_settled_def nxt_timer_add_def nxt_timer_changes_commit_def pending_def
        CX1_def heap0_def tmr_def chg_def timer_update_def nxt_timer_is_in_tree_def
        nxt_abs_def nxt_msec_diff_def Let_def)

lemma add_add_settled_CX1: "add_add_settled CX1 1 1050 1120 = Some CX2"
  by (simp add: add_add_settled_def nxt_timer_add_def nxt_timer_change_def
        nxt_timer_changes_commit_def pending_def
        nxt_timer_commit_step_def nxt_timer_commit_switch_def
        CX1_def CX2_def heap0_def tmr_def chg_def timer_update_def nxt_timer_is_in_tree_def
        nxt_rbtree_delete_def nxt_abs_def nxt_msec_diff_def Let_def)

lemma timer_add_settle_linked:
  assumes inv: "engine_inv e" and a: "nxt_timer_add e q x = Some e1"
    and l: "in_tree (heap (settle e) p)"
  shows "in_tree (heap (settle e1) p)"
proof (cases "q = p")
  case True
  with timer_add_settle(2) [OF inv a] show ?thesis by simp
next
  case False
  from inv have wf: "batch_wf e" and pi: "pending_inv e"
    by (simp_all add: engine_inv_def)
  show ?thesis
  proof (cases "state (heap e q) \<noteq> NXT_TIMER_CHANGING \<and> in_tree (heap e q)
               \<and> nxt_abs (nxt_msec_diff (now e + x) (time (heap e q))) < int (precision (heap e q))")
    case True
    then have e1: "e1 = timer_update q (\<lambda>t. t\<lparr>state := NXT_TIMER_WAITING\<rparr>) e"
      using a by (simp add: nxt_timer_add_def Let_def nxt_timer_is_in_tree_def)
    have "q \<notin> timer ` set (pending e)"
      using pi True by (intro pending_inv_no_record) simp_all
    then show ?thesis
      using l False by (simp add: e1 settle_state_update_other)
  next
    case slow: False
    let ?r = "\<lparr>change = NXT_TIMER_ADD, ch_time = now e + x, timer = q\<rparr>"
    from slow a have "nxt_timer_change e q NXT_TIMER_ADD (now e + x) = Some e1"
      by (auto simp add: nxt_timer_add_def Let_def nxt_timer_is_in_tree_def split: if_splits)
    from timer_change_settle [OF wf this]
    have "heap (settle e1) = heap (nxt_timer_commit_step ?r (core (settle e)))"
      by (metis core_simps(1))
    then show ?thesis
      using l False commit_step_other [of p ?r "core (settle e)"] by simp
  qed
qed

lemma timer_add_list_settle:
  assumes "engine_inv e"
  shows "\<exists>e1. nxt_timer_add_list e reqs = Some e1 \<and> engine_inv e1
              \<and> (\<forall>p. in_tree (heap (settle e) p) \<or> p \<in> fst ` set reqs
                       \<longrightarrow> in_tree (heap (settle e1) p))"
  using assms
proof (induction reqs arbitrary: e)
  case Nil
  then show ?case by simp
next
  case (Cons r reqs)
  obtain q x where r: "r = (q, x)" by (cases r)
  from Cons.prems have "batch_wf e" by (simp add: engine_inv_def)
  then obtain e1 where a: "nxt_timer_add e q x = Some e1"
    using timer_add_total by blast
  have inv1: "engine_inv e1"
    using Cons.prems a by (rule timer_add_engine_inv)
  from Cons.IH [OF inv1] obtain e2 where
    l: "nxt_timer_add_list e1 reqs = Some e2" and inv2: "engine_inv e2"
    and k: "\<forall>p. in_tree (heap (settle e1) p) \<or> p \<in> fst ` set reqs
               \<longrightarrow> in_tree (heap (settle e2) p)"
    by blast
  have "in_tree (heap (settle e2) p)"
    if "in_tree (heap (settle e) p) \<or> p \<in> fst ` set (r # reqs)" for p
  proof -
    from that consider "in_tree (heap (settle e) p)" | "p = q" | "p \<in> fst ` set reqs"
      unfolding r by auto
    then show ?thesis
    proof cases
      case 1
      then have "in_tree (heap (settle e1) p)"
        by (rule timer_add_settle_linked [OF Cons.prems a])
      with k show ?thesis by blast
    next
      case 2
      then have "in_tree (heap (settle e1) p)"
        using timer_add_settle(2) [OF Cons.prems a] by simp
      with k show ?thesis by blast
    next
      case 3
      with k show ?thesis by blast
    qed
  qed
  then have "\<forall>p. in_tree (heap (settle e) p) \<or> p \<in> fst ` set (r # reqs)
                       \<longrightarrow> in_tree (heap (settle e2) p)"
    by blast
  moreover have "nxt_timer_add_list e (r # reqs) = Some e2"
    using a l by (simp add: r)
  ultimately show ?case
    using inv2 by blast
qed

lemma engine_step_batch:
  assumes "engine_inv e" and "engine_step e e2"
  shows "nchanges e2 \<le> mchanges e2 \<and> length (changes e2) = mchanges e2"
proof -
  have "engine_inv e2"
    using assms(2) assms(1) by (rule engine_step_engine_inv)
  then show ?thesis
    by (simp add: engine_inv_def batch_wf_def)
qed

lemma capacity_zero_overflows: "nxt_timer_add R0 1 5 = None"
  by (simp add: nxt_timer_add_def nxt_timer_change_def nxt_timer_changes_commit_def R0_def
        heap0_def tmr_def nxt_timer_is_in_tree_def pending_def)

lemma timer_delete_total: "batch_wf e \<Longrightarrow> \<exists>b e'. nxt_timer_delete e p = Some (b, e')"
  using timer_change_total [of e p NXT_TIMER_DELETE 0]
  by (auto simp add: nxt_timer_delete_def Let_def)

lemma add_list_R1_nchanges:
  "map_option nchanges (nxt_timer_add_list R1 [(1, 100), (2, 50), (3, 100)]) = Some 1"
  by (simp add: nxt_timer_add_def nxt_timer_change_def
        nxt_timer_changes_commit_def pending_def
        nxt_timer_commit_step_def nxt_timer_commit_switch_def
        R1_def heap0_def tmr_def rec0_def timer_update_def nxt_timer_is_in_tree_def
        nxt_rbtree_delete_def nxt_abs_def nxt_msec_diff_def Let_def)

section \<open>What an expiry scan submits\<close>

lemma enqueued_by_expire_iff:
  assumes "tree_inv e"
  shows "(p \<in> set (enqueued_by_expire e nw)) =
           (\<not> 0 < sint (minimum e - nw)
            \<and> p \<in> set (takeWhile (is_due e nw) (tree e))
            \<and> state (heap e p) \<noteq> NXT_TIMER_DISABLED)"
proof -
  from assms have d: "distinct (tree e)"
    by (simp add: tree_inv_def)
  have "enqueued_by_expire e nw =
          (if 0 < sint (minimum e - nw) then []
           else filter (\<lambda>p. state (heap e p) \<noteq> NXT_TIMER_DISABLED)
                  (takeWhile (is_due e nw) (tree e)))"
    by (simp add: enqueued_by_expire_def timer_expire_eq_spec [OF d] expire_spec_def Let_def
          comp_def)
  then show ?thesis
    by auto
qed

lemma timer_disable_state:
  assumes "batch_wf e" and "nxt_timer_disable e p = Some e2"
  shows "state (heap e2 p) = NXT_TIMER_DISABLED \<or> state (heap e2 p) = NXT_TIMER_CHANGING"
  using assms
  by (auto simp add: nxt_timer_disable_def timer_change_Some split: if_splits)

lemma add_then_disable_state:
  assumes inv: "engine_inv e" and run: "add_then_disable e p cb = Some e2"
  shows "state (heap e2 p) = NXT_TIMER_DISABLED \<or> state (heap e2 p) = NXT_TIMER_CHANGING"
    and "cb \<Longrightarrow> state (heap e2 p) = NXT_TIMER_DISABLED"
proof -
  from run obtain e1 e1' where
    a: "nxt_timer_add e p 0 = Some e1"
    and m: "(if cb then nxt_timer_changes_commit e1 else Some e1) = Some e1'"
    and d: "nxt_timer_disable e1' p = Some e2"
    by (auto simp add: add_then_disable_def split: option.splits)
  have inv1: "engine_inv e1"
    using inv a by (rule timer_add_engine_inv)
  have inv1': "engine_inv e1'"
    using m inv1 by (auto intro: changes_commit_engine_inv split: if_splits)
  then have wf1': "batch_wf e1'" and ci: "changing_inv e1'"
    by (simp_all add: engine_inv_def)
  show "state (heap e2 p) = NXT_TIMER_DISABLED \<or> state (heap e2 p) = NXT_TIMER_CHANGING"
    using wf1' d by (rule timer_disable_state)
  show "state (heap e2 p) = NXT_TIMER_DISABLED" if cb
  proof -
    from that m have "nchanges e1' = 0"
      by (auto simp add: nxt_timer_changes_commit_def split: if_splits)
    then have "pending e1' = []"
      by (simp add: pending_def)
    with ci have "state (heap e1' p) \<noteq> NXT_TIMER_CHANGING"
      by (rule no_pending_no_changing)
    with d show ?thesis
      by (auto simp add: nxt_timer_disable_def)
  qed
qed

lemma add_then_disable_CE1_commit: "add_then_disable CE1 1 True = Some CE3"
  by (simp add: add_then_disable_def nxt_timer_add_def nxt_timer_disable_def
        nxt_timer_change_def nxt_timer_changes_commit_def pending_def
        nxt_timer_commit_step_def nxt_timer_commit_switch_def nxt_rbtree_delete_def
        CE1_def CE3_def heap0_def tmr_def chg_def timer_update_def
        nxt_timer_is_in_tree_def nxt_abs_def nxt_msec_diff_def Let_def)

lemma nxt_abs_msec_diff_less:
  "nxt_abs (nxt_msec_diff a b) < int n \<longleftrightarrow>
     \<bar>nxt_msec_diff a b\<bar> < int n \<or> nxt_msec_diff a b = - (2 ^ 31)"
  unfolding nxt_msec_diff_def by (rule nxt_abs_sint_less)

section \<open>The commit against its specification\<close>

text \<open>
  Away from the overflow point of \<open>nxt_abs\<close> the commit is the specification's: it
  processes the pending records in insertion order, one at a time, each with the
  effect of \<open>commit_record_spec\<close>, and empties the batch.
\<close>

lemma changes_commit_eq_spec:
  assumes "tree_inv e" and "nchanges e \<le> length (changes e)"
    and "no_overflow_records (pending e) e"
  shows "nxt_timer_changes_commit e = Some (changes_commit_spec e)"
    and "pending (changes_commit_spec e) = []"
  using assms
  by (simp_all add: nxt_timer_changes_commit_def changes_commit_spec_def commit_loop_eq_spec)

lemma changes_commit_eq_spec_example:
  "tree_inv W1 \<and> nchanges W1 \<le> length (changes W1) \<and> no_overflow_records (pending W1) W1
   \<and> (\<exists>e'. nxt_timer_changes_commit W1 = Some e'
          \<and> tree e' = [2, 4] \<and> nchanges e' = 0
          \<and> map (heap e') [1, 2, 3, 4]
             = [tmr False NXT_TIMER_DISABLED 1000, tmr True NXT_TIMER_WAITING 500,
                tmr False NXT_TIMER_DISABLED 0, tmr True NXT_TIMER_WAITING 700])"
proof -
  have h: "tree_inv W1" "nchanges W1 \<le> length (changes W1)"
    by (auto simp add: tree_inv_def W1_def tmr_def heap0_def)
  have n: "no_overflow_records (pending W1) W1"
    by (simp add: W1_def pending_def record_overflows_def chg_def tmr_def heap0_def
          nxt_timer_commit_step_def nxt_timer_commit_switch_def nxt_timer_is_in_tree_def
          timer_update_def Let_def nxt_abs_def nxt_msec_diff_def nxt_rbtree_delete_def
          nxt_timer_rbtree_compare_def)
  show ?thesis
    using h n changes_commit_eq_spec(1) [OF h n]
    by (simp add: W1_def pending_def changes_commit_spec_def commit_record_spec_def chg_def
          tmr_def heap0_def nxt_timer_rbtree_compare_def nxt_msec_diff_def)
qed

section \<open>The claims\<close>

text \<open>
  Claim C1.  The batch commit processes the change records in insertion order, one at
  a time: an Add record whose timer is in the tree and whose time differs from the
  timer's deadline by less than the precision keeps position and deadline and sets
  Waiting; every other Add record removes the stale entry, sets the deadline to the
  record's time, reinserts and sets Waiting; Delete unlinks and sets Disabled; Disable
  only sets Disabled; afterwards the batch is empty (\<open>changes_commit_spec\<close>).

  The code departs from this at one point.  After \<open>nxt_timers_init\<close> with capacity 2,
  \<open>nxt_timer_add\<close> of timer 1 with timeout 0 and \<open>nxt_timer_add\<close> of timer 1 with timeout
  2^31, the second record lies 2^31 milliseconds from the deadline 0 that the first
  record sets, which is not less than the precision 100; the commit nevertheless takes
  the coalescing branch, because the 32-bit negation in \<open>nxt_abs\<close> overflows, and keeps
  the deadline 0 where the claim gives the deadline 2^31.
\<close>

theorem changes_commit_overflow:
  "reachable OV1
   \<and> pending OV1 = [chg NXT_TIMER_ADD 0 1, chg NXT_TIMER_ADD 2147483648 1]
   \<and> nxt_timer_changes_commit OV1 = Some OV2
   \<and> changes_commit_spec OV1 = OV3
   \<and> time (heap OV2 1) = 0
   \<and> time (heap OV3 1) = 2147483648
   \<and> \<not> \<bar>nxt_msec_diff 2147483648 0\<bar> < int (precision (heap OV1 1))
   \<and> nxt_abs (nxt_msec_diff 2147483648 0) < int (precision (heap OV1 1))"
proof -
  have "nxt_timer_add R1 1 0 = Some OV0"
    by (simp add: nxt_timer_add_def nxt_timer_change_def R1_def OV0_def heap0_def tmr_def
          chg_def timer_update_def nxt_timer_is_in_tree_def)
  then have "engine_step R1 OV0"
    by (rule step_add)
  with reachable_R1 have r0: "reachable OV0"
    by (rule reachable_step)
  have "nxt_timer_add OV0 1 2147483648 = Some OV1"
    by (simp add: nxt_timer_add_def nxt_timer_change_def OV0_def OV1_def heap0_def tmr_def
          chg_def timer_update_def nxt_timer_is_in_tree_def)
  then have "engine_step OV0 OV1"
    by (rule step_add)
  with r0 have r1: "reachable OV1"
    by (rule reachable_step)
  have p: "pending OV1 = [chg NXT_TIMER_ADD 0 1, chg NXT_TIMER_ADD 2147483648 1]"
    by (simp add: pending_def OV1_def)
  have d: "nxt_msec_diff 2147483648 0 = - 2147483648"
    by (simp add: nxt_msec_diff_def)
  have a: "nxt_abs (- 2147483648) = - 2147483648"
    by (simp add: nxt_abs_def)
  have c: "nxt_timer_changes_commit OV1 = Some OV2"
    by (simp add: nxt_timer_changes_commit_def p)
       (simp add: OV1_def OV2_def nxt_timer_commit_step_def nxt_timer_commit_switch_def
          nxt_timer_is_in_tree_def timer_update_def Let_def chg_def tmr_def heap0_def d a)
  have s: "changes_commit_spec OV1 = OV3"
    by (simp add: changes_commit_spec_def p)
       (simp add: OV1_def OV3_def commit_record_spec_def Let_def chg_def tmr_def heap0_def
          nxt_timer_rbtree_compare_def)
  have t: "time (heap OV2 1) = 0" "time (heap OV3 1) = 2147483648" "precision (heap OV1 1) = 100"
    by (simp_all add: OV1_def OV2_def OV3_def tmr_def)
  from r1 p c s t show ?thesis
    by (simp add: d a)
qed

text \<open>
  Claim C2.  \<open>nxt_timer_find\<close> first commits a pending batch, then takes the first entry
  of the index, in order, whose state is not Disabled: its deadline becomes the cached
  minimum and the result is max(deadline - now, 0) with the signed wraparound-aware
  difference.  Disabled entries are skipped and stay in the tree.  If there is no such
  entry the cached minimum becomes now + 86400000 (one day) and the result is the
  infinite-wait sentinel.
\<close>

theorem find_next_deadline:
  assumes "nchanges e \<le> length (changes e)"
  shows "\<exists>e1. (if nchanges e = 0 then e1 = e else nxt_timer_changes_commit e = Some e1)
            \<and> nxt_timer_find e = Some (find_spec e1)
            \<and> tree (snd (find_spec e1)) = tree e1 \<and> heap (snd (find_spec e1)) = heap e1"
proof -
  have frame: "tree (snd (find_spec e1)) = tree e1 \<and> heap (snd (find_spec e1)) = heap e1" for e1
    by (simp add: find_spec_def split: option.splits)
  show ?thesis
    using assms frame
    by (simp add: nxt_timer_find_def nxt_timer_changes_commit_def find_loop_eq_spec find_spec_def)
qed

theorem find_next_deadline_witness:
  "nchanges F1 \<le> length (changes F1) \<and> nchanges F2 \<le> length (changes F2)
   \<and> (\<exists>e'. nxt_timer_find F1 = Some (10, e') \<and> minimum e' = 30 \<and> tree e' = [1, 3, 2]
          \<and> nchanges e' = 0)
   \<and> (\<exists>e'. nxt_timer_find F2 = Some (NXT_INFINITE_MSEC, e') \<and> minimum e' = 86400020
          \<and> tree e' = [1])"
  using find_next_deadline [of F1] find_next_deadline [of F2]
  by (simp add: F1_def F2_def find_spec_def nxt_timer_changes_commit_def pending_def
        nxt_timer_commit_step_def nxt_timer_commit_switch_def nxt_timer_is_in_tree_def
        timer_update_def Let_def chg_def tmr_def heap0_def
        nxt_timer_rbtree_compare_def nxt_msec_diff_def)

text \<open>
  Claim C3.  \<open>nxt_timer_expire\<close> sets the engine's \<open>now\<close>.  If the cached minimum is
  still strictly after \<open>now\<close> in the signed wraparound-aware comparison it returns with
  nothing else changed.  Otherwise it walks the index from the minimum: every entry up
  to the first one whose deadline is after \<open>now\<close> is unlinked and its \<open>in_tree\<close> flag
  cleared; such an entry becomes Enqueued and is submitted to its work queue when its
  state was not Disabled, and is dropped without dispatch when it was Disabled; the
  entries from the first one that is not due onwards stay as they are.  (The tree links
  a node at most once.)
\<close>

theorem expire_scan:
  assumes "distinct (tree e)"
  shows "nxt_timer_expire e nw = expire_spec e nw"
  using assms by (rule timer_expire_eq_spec)

theorem expire_scan_witness:
  "distinct (tree X1)
   \<and> tree (nxt_timer_expire X1 50) = [3]
   \<and> work (nxt_timer_expire X1 50) = [(7, 2)]
   \<and> map (\<lambda>p. state (heap (nxt_timer_expire X1 50) p)) [1, 2, 3]
       = [NXT_TIMER_DISABLED, NXT_TIMER_ENQUEUED, NXT_TIMER_WAITING]
   \<and> map (\<lambda>p. in_tree (heap (nxt_timer_expire X1 50) p)) [1, 2, 3] = [False, False, True]
   \<and> nxt_timer_expire X1 5 = X1\<lparr>now := 5\<rparr>"
  using expire_scan [of X1 50] expire_scan [of X1 5]
  by (simp add: X1_def expire_spec_def is_due_def tmr_def heap0_def)

text \<open>
  Claim C4, amended.  \<open>nxt_timer_find\<close> is a commit point: the engine on which its
  walk of the index runs has an empty batch and no timer in state Changing, and so has
  the engine it returns.  \<open>nxt_timer_expire\<close> is not a commit point: it never commits,
  it walks the tree as it stands on entry and leaves the pending batch as it is, so
  the batch is empty during its walk only when it was empty on entry.
\<close>

theorem commit_points:
  assumes "engine_inv e"
  shows "(\<exists>e1. (if nchanges e = 0 then e1 = e else nxt_timer_changes_commit e = Some e1)
             \<and> nxt_timer_find e = Some (nxt_timer_find_loop (tree e1) e1)
             \<and> pending e1 = [] \<and> (\<forall>p. state (heap e1 p) \<noteq> NXT_TIMER_CHANGING))
       \<and> (\<forall>w e'. nxt_timer_find e = Some (w, e') \<longrightarrow>
             pending e' = [] \<and> (\<forall>p. state (heap e' p) \<noteq> NXT_TIMER_CHANGING))
       \<and> pending (nxt_timer_expire e nw) = pending e
       \<and> nxt_timer_expire e nw =
            (if 0 < nxt_msec_diff (minimum e) nw then e\<lparr>now := nw\<rparr>
             else nxt_timer_expire_loop nw (tree e) (e\<lparr>now := nw\<rparr>))"
proof -
  from assms have wf: "batch_wf e" by (simp add: engine_inv_def)
  obtain e1 where e1: "(if nchanges e \<noteq> 0 then nxt_timer_changes_commit e else Some e) = Some e1"
    using changes_commit_total [OF wf] by (cases "nchanges e = 0") auto
  have inv1: "engine_inv e1"
    using e1 assms by (auto intro: changes_commit_engine_inv split: if_splits)
  have p1: "pending e1 = []"
    using e1 by (auto simp add: nxt_timer_changes_commit_def pending_def split: if_splits)
  have c1: "\<forall>p. state (heap e1 p) \<noteq> NXT_TIMER_CHANGING"
    using no_pending_no_changing [of e1] inv1 p1 by (simp add: engine_inv_def)
  have f: "nxt_timer_find e = Some (nxt_timer_find_loop (tree e1) e1)"
    using e1 by (simp add: nxt_timer_find_def)
  have first: "\<exists>e1. (if nchanges e = 0 then e1 = e else nxt_timer_changes_commit e = Some e1)
             \<and> nxt_timer_find e = Some (nxt_timer_find_loop (tree e1) e1)
             \<and> pending e1 = [] \<and> (\<forall>p. state (heap e1 p) \<noteq> NXT_TIMER_CHANGING)"
    using e1 f p1 c1 by (intro exI [of _ e1]) (auto split: if_splits)
  have second: "pending e' = [] \<and> (\<forall>p. state (heap e' p) \<noteq> NXT_TIMER_CHANGING)"
    if "nxt_timer_find e = Some (w, e')" for w e'
  proof -
    have "engine_inv e'"
      using assms that by (rule timer_find_engine_inv)
    moreover have "pending e' = []"
      using timer_find_heap_tree(5) [OF that] by (simp add: pending_def)
    ultimately show ?thesis
      using no_pending_no_changing [of e'] by (simp add: engine_inv_def)
  qed
  have fourth: "nxt_timer_expire e nw =
            (if 0 < nxt_msec_diff (minimum e) nw then e\<lparr>now := nw\<rparr>
             else nxt_timer_expire_loop nw (tree e) (e\<lparr>now := nw\<rparr>))"
    by (simp add: nxt_timer_expire_def Let_def)
  from first second timer_expire_pending [of e nw] fourth show ?thesis
    by blast
qed

theorem commit_points_witness:
  "engine_inv CE2
   \<and> (\<exists>w e'. nxt_timer_find CE2 = Some (w, e') \<and> pending e' = []
          \<and> state (heap e' 1) \<noteq> NXT_TIMER_CHANGING)
   \<and> pending (nxt_timer_expire CE2 600) = pending CE2"
proof -
  have "reachable CE2"
    using reachable_CE1 add_then_disable_CE1 by (rule add_then_disable_reachable)
  then have inv: "engine_inv CE2"
    by (rule reachable_engine_inv)
  obtain w e' where f: "nxt_timer_find CE2 = Some (w, e')"
    using timer_find_total [of CE2] inv by (auto simp add: engine_inv_def)
  note cp = commit_points [OF inv, of 600]
  from cp [THEN conjunct2, THEN conjunct1, rule_format, OF f]
  have a: "pending e' = []" "state (heap e' 1) \<noteq> NXT_TIMER_CHANGING"
    by simp_all
  from cp [THEN conjunct2, THEN conjunct2, THEN conjunct1]
  have b: "pending (nxt_timer_expire CE2 600) = pending CE2" .
  from inv f a b show ?thesis
    by simp
qed

theorem commit_points_counterexample:
  "reachable CE2 \<and> pending CE2 = [chg NXT_TIMER_ADD 100 1, chg NXT_TIMER_DISABLE 0 1]
   \<and> pending (nxt_timer_expire CE2 600) = [chg NXT_TIMER_ADD 100 1, chg NXT_TIMER_DISABLE 0 1]
   \<and> tree CE2 = [1] \<and> state (heap CE2 1) = NXT_TIMER_CHANGING
   \<and> tree (nxt_timer_expire CE2 600) = []
   \<and> work (nxt_timer_expire CE2 600) = [(7, 1)]"
proof -
  have "reachable CE2"
    using reachable_CE1 add_then_disable_CE1 by (rule add_then_disable_reachable)
  moreover have "pending CE2 = [chg NXT_TIMER_ADD 100 1, chg NXT_TIMER_DISABLE 0 1]"
    by (simp add: pending_def CE2_def)
  moreover have "tree (nxt_timer_expire CE2 600) = []"
      "work (nxt_timer_expire CE2 600) = [(7, 1)]"
    by (simp_all add: nxt_timer_expire_def CE2_def Let_def nxt_msec_diff_def
        tmr_def heap0_def nxt_rbtree_delete_def timer_update_def)
  moreover have "tree CE2 = [1]" "state (heap CE2 1) = NXT_TIMER_CHANGING"
    by (simp_all add: CE2_def tmr_def)
  ultimately show ?thesis
    by (simp add: timer_expire_pending)
qed

text \<open>
  Claim C5, amended.  In an engine state that satisfies the invariants of the reachable
  states, after \<open>nxt_timer_add\<close> with timeout 0 followed by \<open>nxt_timer_disable\<close> on the
  same timer: if a commit happened between the two calls, the timer is Disabled and
  \<open>nxt_timer_expire\<close> does not submit it to a work queue.  If no commit happened between
  the two calls, \<open>nxt_timer_expire\<close> does not submit the timer once the pending batch
  has been committed (by the commit itself or by \<open>nxt_timer_find\<close>; the expiry scan does
  not commit); before that commit it submits the timer exactly when the timer is still
  in state Changing and linked in the tree among the entries that the scan finds due,
  so it does not when the timer is not Changing or not linked.
\<close>

theorem disable_then_fire:
  assumes "engine_inv e"
  shows "\<exists>e2 e3 w e4.
           add_then_disable e p cb = Some e2
           \<and> (cb \<longrightarrow> state (heap e2 p) = NXT_TIMER_DISABLED
                      \<and> p \<notin> set (enqueued_by_expire e2 nw))
           \<and> nxt_timer_changes_commit e2 = Some e3
           \<and> state (heap e3 p) = NXT_TIMER_DISABLED \<and> p \<notin> set (enqueued_by_expire e3 nw)
           \<and> nxt_timer_find e2 = Some (w, e4)
           \<and> state (heap e4 p) = NXT_TIMER_DISABLED \<and> p \<notin> set (enqueued_by_expire e4 nw)
           \<and> (state (heap e2 p) \<noteq> NXT_TIMER_CHANGING \<or> \<not> in_tree (heap e2 p)
                \<longrightarrow> p \<notin> set (enqueued_by_expire e2 nw))
           \<and> (p \<in> set (enqueued_by_expire e2 nw)) =
               (state (heap e2 p) = NXT_TIMER_CHANGING
                \<and> \<not> 0 < sint (minimum e2 - nw)
                \<and> p \<in> set (takeWhile (is_due e2 nw) (tree e2)))"
proof -
  obtain e2 where run: "add_then_disable e p cb = Some e2"
    using add_then_disable_total [OF assms] by blast
  from add_then_disable_settle [OF assms run]
  have inv2: "engine_inv e2" and st: "state (heap (settle e2) p) = NXT_TIMER_DISABLED"
    by simp_all
  from inv2 have wf2: "batch_wf e2" and ti2: "tree_inv e2"
    by (simp_all add: engine_inv_def)
  note st2 = add_then_disable_state [OF assms run]
  obtain e3 where c: "nxt_timer_changes_commit e2 = Some e3"
    using changes_commit_total [OF wf2] by blast
  obtain w e4 where f: "nxt_timer_find e2 = Some (w, e4)"
    using timer_find_total [OF wf2] by blast
  have s3: "state (heap e3 p) = NXT_TIMER_DISABLED"
    using st changes_commit_heap_tree(1) [OF c] by simp
  have s4: "state (heap e4 p) = NXT_TIMER_DISABLED"
    using st timer_find_heap_tree(1) [OF f] by simp
  have committed: "state (heap e2 p) = NXT_TIMER_DISABLED \<and> p \<notin> set (enqueued_by_expire e2 nw)"
    if cb
    using st2(2) [OF that] expire_not_enqueued [of e2 p nw] by simp
  have exact: "(p \<in> set (enqueued_by_expire e2 nw)) =
               (state (heap e2 p) = NXT_TIMER_CHANGING
                \<and> \<not> 0 < sint (minimum e2 - nw)
                \<and> p \<in> set (takeWhile (is_due e2 nw) (tree e2)))"
    using st2(1) enqueued_by_expire_iff [OF ti2, of p nw] by auto
  have direct: "p \<notin> set (enqueued_by_expire e2 nw)"
    if "state (heap e2 p) \<noteq> NXT_TIMER_CHANGING \<or> \<not> in_tree (heap e2 p)"
  proof (cases "in_tree (heap e2 p)")
    case False
    then show ?thesis
      using enqueued_by_expire_subset [OF ti2] by blast
  next
    case True
    with that exact show ?thesis by simp
  qed
  from run committed c s3 f s4 direct exact
    expire_not_enqueued [OF s3] expire_not_enqueued [OF s4]
  show ?thesis by blast
qed

theorem disable_then_fire_witness:
  "engine_inv CE1
   \<and> (\<exists>w e4. add_then_disable CE1 1 False = Some CE2 \<and> nxt_timer_find CE2 = Some (w, e4)
          \<and> state (heap e4 1) = NXT_TIMER_DISABLED \<and> 1 \<notin> set (enqueued_by_expire e4 600))
   \<and> add_then_disable CE1 1 True = Some CE3
   \<and> state (heap CE3 1) = NXT_TIMER_DISABLED \<and> 1 \<notin> set (enqueued_by_expire CE3 600)"
proof -
  have inv: "engine_inv CE1"
    using reachable_CE1 by (rule reachable_engine_inv)
  from disable_then_fire [OF inv, of 1 False 600] add_then_disable_CE1 inv
  have a: "\<exists>w e4. add_then_disable CE1 1 False = Some CE2 \<and> nxt_timer_find CE2 = Some (w, e4)
          \<and> state (heap e4 1) = NXT_TIMER_DISABLED \<and> 1 \<notin> set (enqueued_by_expire e4 600)"
    by auto
  from disable_then_fire [OF inv, of 1 True 600] add_then_disable_CE1_commit
  have b: "state (heap CE3 1) = NXT_TIMER_DISABLED \<and> 1 \<notin> set (enqueued_by_expire CE3 600)"
    by auto
  from inv a b add_then_disable_CE1_commit show ?thesis
    by simp
qed

theorem disable_then_fire_counterexample:
  "reachable CE1 \<and> add_then_disable CE1 1 False = Some CE2 \<and> enqueued_by_expire CE2 600 = [1]"
  using reachable_CE1 add_then_disable_CE1 enqueued_CE2 by simp

text \<open>
  Claim C6, amended.  In an engine state that satisfies the invariants of the reachable
  states, \<open>nxt_timer_add\<close> with timeout \<open>x\<close> immediately followed by \<open>nxt_timer_add\<close>
  with timeout \<open>x'\<close> on the same timer leaves the timer, after the next commit, in state
  Waiting; with the deadline \<open>d1\<close> that the first call alone settles to when \<open>now + x'\<close>
  differs from \<open>d1\<close> by less than the timer's precision; and with the deadline
  \<open>now + x'\<close> when it differs by the precision or more (the distance of exactly 2^31
  milliseconds, where the absolute value overflows, is left open).  With \<open>|x' - x|\<close>
  below the precision the deadline therefore stays \<open>d1\<close> whenever the first call settles
  to \<open>now + x\<close>, as it does for a timer that is not linked in the tree and has no
  pending record.
\<close>

theorem coalescing_idempotence:
  assumes "engine_inv e"
  shows "\<exists>s1 s2.
           add_settled e p x = Some s1 \<and> add_add_settled e p x x' = Some s2
           \<and> state (heap s2 p) = NXT_TIMER_WAITING
           \<and> (\<bar>nxt_msec_diff (now e + x') (time (heap s1 p))\<bar> < int (precision (heap e p))
                \<longrightarrow> time (heap s2 p) = time (heap s1 p))
           \<and> (\<not> \<bar>nxt_msec_diff (now e + x') (time (heap s1 p))\<bar> < int (precision (heap e p))
                \<and> nxt_msec_diff (now e + x') (time (heap s1 p)) \<noteq> - (2 ^ 31)
                \<longrightarrow> time (heap s2 p) = now e + x')
           \<and> (time (heap s1 p) = now e + x
                \<and> \<bar>nxt_msec_diff x' x\<bar> < int (precision (heap e p))
                \<longrightarrow> time (heap s2 p) = now e + x)
           \<and> (\<not> in_tree (heap e p) \<and> p \<notin> timer ` set (pending e)
                \<longrightarrow> time (heap s1 p) = now e + x)"
proof -
  from assms have wf: "batch_wf e" by (simp add: engine_inv_def)
  obtain e1 where a1: "nxt_timer_add e p x = Some e1"
    using timer_add_total [OF wf] by blast
  have inv1: "engine_inv e1"
    using assms a1 by (rule timer_add_engine_inv)
  then have wf1: "batch_wf e1" by (simp add: engine_inv_def)
  obtain s1 where c1: "nxt_timer_changes_commit e1 = Some s1"
    using changes_commit_total [OF wf1] by blast
  obtain e2 where a2: "nxt_timer_add e1 p x' = Some e2"
    using timer_add_total [OF wf1] by blast
  have inv2: "engine_inv e2"
    using inv1 a2 by (rule timer_add_engine_inv)
  then have wf2: "batch_wf e2" by (simp add: engine_inv_def)
  obtain s2 where c2: "nxt_timer_changes_commit e2 = Some s2"
    using changes_commit_total [OF wf2] by blast
  have h1: "heap s1 = heap (settle e1)" and h2: "heap s2 = heap (settle e2)"
    using changes_commit_heap_tree(1) [OF c1] changes_commit_heap_tree(1) [OF c2] by simp_all
  note f1 = timer_add_frame [OF wf a1]
  note t1 = timer_add_settle [OF assms a1]
  note t2 = timer_add_settle [OF inv1 a2]
  have st: "state (heap s2 p) = NXT_TIMER_WAITING"
    using t2(1) by (simp add: h2)
  have tm: "time (heap s2 p) =
               (if nxt_abs (nxt_msec_diff (now e + x') (time (heap s1 p)))
                     < int (precision (heap e p))
                then time (heap s1 p) else now e + x')"
    using t2(3) t1(2) by (simp add: h1 h2 f1)
  have near: "time (heap s2 p) = time (heap s1 p)"
    if "\<bar>nxt_msec_diff (now e + x') (time (heap s1 p))\<bar> < int (precision (heap e p))"
    using that tm by (simp add: nxt_abs_msec_diff_less)
  have far: "time (heap s2 p) = now e + x'"
    if "\<not> \<bar>nxt_msec_diff (now e + x') (time (heap s1 p))\<bar> < int (precision (heap e p))
        \<and> nxt_msec_diff (now e + x') (time (heap s1 p)) \<noteq> - (2 ^ 31)"
    using that tm by (simp add: nxt_abs_msec_diff_less)
  have sp: "time (heap s2 p) = now e + x"
    if "time (heap s1 p) = now e + x \<and> \<bar>nxt_msec_diff x' x\<bar> < int (precision (heap e p))"
    using that near by (simp add: msec_diff_shift)
  have fresh: "time (heap s1 p) = now e + x"
    if "\<not> in_tree (heap e p) \<and> p \<notin> timer ` set (pending e)"
  proof -
    from that have "heap (settle e) p = heap e p"
      by (simp add: settle_other)
    with that t1(3) show ?thesis
      by (simp add: h1)
  qed
  have r1: "add_settled e p x = Some s1"
    using a1 c1 by (simp add: add_settled_def)
  have r2: "add_add_settled e p x x' = Some s2"
    using a1 a2 c2 by (simp add: add_add_settled_def)
  from r1 r2 st near far sp fresh show ?thesis
    by blast
qed

theorem coalescing_idempotence_witness:
  "engine_inv R1 \<and> \<not> in_tree (heap R1 1) \<and> 1 \<notin> timer ` set (pending R1)
   \<and> \<bar>nxt_msec_diff 1120 1050\<bar> < int (precision (heap R1 1))
   \<and> (\<exists>s1 s2. add_settled R1 1 1050 = Some s1 \<and> add_add_settled R1 1 1050 1120 = Some s2
          \<and> time (heap s1 1) = 1050 \<and> time (heap s2 1) = 1050
          \<and> state (heap s2 1) = NXT_TIMER_WAITING)
   \<and> engine_inv CX1
   \<and> \<not> \<bar>nxt_msec_diff (now CX1 + 1120) (time (heap CX1 1))\<bar> < int (precision (heap CX1 1))
   \<and> nxt_msec_diff (now CX1 + 1120) (time (heap CX1 1)) \<noteq> - (2 ^ 31)
   \<and> (\<exists>s2. add_add_settled CX1 1 1050 1120 = Some s2 \<and> time (heap s2 1) = now CX1 + 1120)"
proof -
  have inv: "engine_inv R1"
    using reachable_R1 by (rule reachable_engine_inv)
  have h: "\<not> in_tree (heap R1 1)" "1 \<notin> timer ` set (pending R1)" "now R1 = 0"
       "\<bar>nxt_msec_diff 1120 1050\<bar> < int (precision (heap R1 1))"
    by (simp_all add: R1_def heap0_def tmr_def pending_def nxt_msec_diff_def)
  from coalescing_idempotence [OF inv, of 1 1050 1120] h
  have a: "\<exists>s1 s2. add_settled R1 1 1050 = Some s1 \<and> add_add_settled R1 1 1050 1120 = Some s2
          \<and> time (heap s1 1) = 1050 \<and> time (heap s2 1) = 1050
          \<and> state (heap s2 1) = NXT_TIMER_WAITING"
    by auto
  have invx: "engine_inv CX1"
    using reachable_CX1 by (rule reachable_engine_inv)
  have g: "\<not> \<bar>nxt_msec_diff (now CX1 + 1120) (time (heap CX1 1))\<bar> < int (precision (heap CX1 1))"
       "nxt_msec_diff (now CX1 + 1120) (time (heap CX1 1)) \<noteq> - (2 ^ 31)"
       "precision (heap CX1 1) = 100" "time (heap CX1 1) = 1000"
    by (simp_all add: CX1_def tmr_def nxt_msec_diff_def)
  from coalescing_idempotence [OF invx, of 1 1050 1120] add_settled_CX1 g
  have b: "\<exists>s2. add_add_settled CX1 1 1050 1120 = Some s2 \<and> time (heap s2 1) = now CX1 + 1120"
    by auto
  from inv h a invx g b show ?thesis
    by simp
qed

theorem coalescing_idempotence_counterexample:
  "reachable CX1
   \<and> \<bar>nxt_msec_diff 1120 1050\<bar> < int (precision (heap CX1 1))
   \<and> add_settled CX1 1 1050 = Some CX1 \<and> time (heap CX1 1) = 1000
   \<and> add_add_settled CX1 1 1050 1120 = Some CX2 \<and> time (heap CX2 1) = 1120"
  using reachable_CX1 add_settled_CX1 add_add_settled_CX1
  by (simp add: CX1_def CX2_def tmr_def nxt_msec_diff_def)

text \<open>
  Claim C7.  The comparison function of the tree is the signed wraparound-aware
  difference of the two deadlines: a deadline that lies less than 2^31 milliseconds
  ahead of another one is ordered after it, also across the overflow of the counter.
  In particular max_value - 1 is ordered before max_value + 5 (which wraps to 4),
  although as unsigned numbers the second is the smaller one.
\<close>

theorem rbtree_compare_wraparound:
  "nxt_timer_rbtree_compare t1 t2 = sint (time t1 - time t2)
   \<and> (\<forall>a d. 0 < d \<and> d < 2 ^ 31 \<longrightarrow>
         nxt_timer_rbtree_compare (t1\<lparr>time := a\<rparr>) (t2\<lparr>time := a + word_of_int d\<rparr>) < 0
         \<and> 0 < nxt_timer_rbtree_compare (t2\<lparr>time := a + word_of_int d\<rparr>) (t1\<lparr>time := a\<rparr>))
   \<and> nxt_timer_rbtree_compare (t1\<lparr>time := 0xFFFFFFFF - 1\<rparr>) (t2\<lparr>time := 0xFFFFFFFF + 5\<rparr>) < 0
   \<and> (0xFFFFFFFF + 5 :: nxt_msec_t) < 0xFFFFFFFF - 1"
proof -
  have gen: "nxt_timer_rbtree_compare (t1\<lparr>time := a\<rparr>) (t2\<lparr>time := a + word_of_int d\<rparr>) < 0
             \<and> 0 < nxt_timer_rbtree_compare (t2\<lparr>time := a + word_of_int d\<rparr>) (t1\<lparr>time := a\<rparr>)"
    if "0 < d" "d < 2 ^ 31" for a d
  proof -
    have "sint (a - (a + word_of_int d) :: 32 word) = - d"
      using sint_neg_small [OF that] by simp
    moreover have "sint (a + word_of_int d - a :: 32 word) = d"
      using that by (simp add: sint_sbintrunc' signed_take_bit_int_eq_self)
    ultimately show ?thesis
      using that by (simp add: nxt_timer_rbtree_compare_def nxt_msec_diff_def)
  qed
  show ?thesis
    using gen by (simp add: nxt_timer_rbtree_compare_def nxt_msec_diff_def)
qed

theorem rbtree_compare_wraparound_witness:
  "(0::int) < 6 \<and> (6::int) < 2 ^ 31
   \<and> nxt_timer_rbtree_compare (tmr True NXT_TIMER_WAITING 0xFFFFFFFE)
                               (tmr True NXT_TIMER_WAITING 4) < 0
   \<and> nxt_rbtree_insert (heap0(1 := tmr True NXT_TIMER_WAITING 0xFFFFFFFE,
                                2 := tmr True NXT_TIMER_WAITING 4)) [2] 1 = [1, 2]"
proof -
  have w: "(0xFFFFFFFE :: 32 word) + word_of_int 6 = 4"
    by simp
  have "nxt_timer_rbtree_compare
          ((tmr True NXT_TIMER_WAITING 0xFFFFFFFE)\<lparr>time := 0xFFFFFFFE\<rparr>)
          ((tmr True NXT_TIMER_WAITING 4)\<lparr>time := 0xFFFFFFFE + word_of_int 6\<rparr>) < 0"
    using rbtree_compare_wraparound
     [of "tmr True NXT_TIMER_WAITING 0xFFFFFFFE" "tmr True NXT_TIMER_WAITING 4",
      THEN conjunct2, THEN conjunct1, rule_format, of 6 "0xFFFFFFFE"]
    by simp
  then have c: "nxt_timer_rbtree_compare (tmr True NXT_TIMER_WAITING 0xFFFFFFFE)
                  (tmr True NXT_TIMER_WAITING 4) < 0"
    unfolding w by (simp add: tmr_def)
  then show ?thesis
    by (simp add: heap0_def)
qed

text \<open>
  Claim C8.  In an engine with a well-formed batch, \<open>nxt_timer_delete\<close> on a timer that
  is in the tree or in state Changing appends a Delete record for the timer to the
  batch (after the commit that a full batch triggers) and returns true; on any other
  timer it returns whether the state was Enqueued, sets the state to Disabled and
  changes neither the batch nor the tree.
\<close>

theorem timer_delete_result:
  assumes "batch_wf e"
  shows "(in_tree (heap e p) \<or> state (heap e p) = NXT_TIMER_CHANGING \<longrightarrow>
            (\<exists>e'. nxt_timer_delete e p = Some (True, e')
                 \<and> pending e' = (if nchanges e < mchanges e then pending e else [])
                                  @ [\<lparr>change = NXT_TIMER_DELETE, ch_time = 0, timer = p\<rparr>]
                 \<and> state (heap e' p) = NXT_TIMER_CHANGING))
       \<and> (\<not> (in_tree (heap e p) \<or> state (heap e p) = NXT_TIMER_CHANGING) \<longrightarrow>
            nxt_timer_delete e p =
              Some (state (heap e p) = NXT_TIMER_ENQUEUED,
                    e\<lparr>heap := (heap e)(p := (heap e p)\<lparr>state := NXT_TIMER_DISABLED\<rparr>)\<rparr>))"
proof (intro conjI impI)
  assume c: "in_tree (heap e p) \<or> state (heap e p) = NXT_TIMER_CHANGING"
  obtain e' where e': "nxt_timer_change e p NXT_TIMER_DELETE 0 = Some e'"
    using timer_change_Some [OF assms] by blast
  have "state (heap e' p) = NXT_TIMER_CHANGING"
    using e' by (auto simp add: timer_change_Some [OF assms])
  moreover have "nxt_timer_delete e p = Some (True, e')"
    using c e' by (simp add: nxt_timer_delete_def nxt_timer_is_in_tree_def)
  ultimately show "\<exists>e'. nxt_timer_delete e p = Some (True, e')
                 \<and> pending e' = (if nchanges e < mchanges e then pending e else [])
                                  @ [\<lparr>change = NXT_TIMER_DELETE, ch_time = 0, timer = p\<rparr>]
                 \<and> state (heap e' p) = NXT_TIMER_CHANGING"
    using timer_change_pending [OF assms e'] by (simp add: pending_flushed)
next
  assume "\<not> (in_tree (heap e p) \<or> state (heap e p) = NXT_TIMER_CHANGING)"
  then show "nxt_timer_delete e p =
              Some (state (heap e p) = NXT_TIMER_ENQUEUED,
                    e\<lparr>heap := (heap e)(p := (heap e p)\<lparr>state := NXT_TIMER_DISABLED\<rparr>)\<rparr>)"
    by (simp add: nxt_timer_delete_def nxt_timer_is_in_tree_def Let_def timer_update_def)
qed

theorem timer_delete_result_witness:
  "batch_wf D1
   \<and> (\<exists>e'. nxt_timer_delete D1 1 = Some (True, e')
          \<and> pending e' = [chg NXT_TIMER_ADD 30 3, chg NXT_TIMER_DELETE 0 1]
          \<and> state (heap e' 1) = NXT_TIMER_CHANGING)
   \<and> (\<exists>e'. nxt_timer_delete D1 5 = Some (True, e') \<and> state (heap e' 5) = NXT_TIMER_DISABLED
          \<and> pending e' = pending D1 \<and> tree e' = tree D1)
   \<and> (\<exists>e'. nxt_timer_delete D1 6 = Some (False, e') \<and> state (heap e' 6) = NXT_TIMER_DISABLED
          \<and> pending e' = pending D1 \<and> tree e' = tree D1)"
proof -
  have h: "batch_wf D1"
    by (simp add: batch_wf_def D1_def)
  show ?thesis
    using h timer_delete_result [OF h, of 1] timer_delete_result [OF h, of 5]
      timer_delete_result [OF h, of 6]
    by (simp add: D1_def pending_def chg_def tmr_def heap0_def)
qed

text \<open>
  Claim C9.  In an engine whose batch was constructed with a capacity of at least 1
  (and which satisfies the invariants of the reachable states): \<open>nxt_timer_change\<close>
  appends within the allocated array (it does not fail) - directly when the batch has
  room, and after a full commit, as the only pending record, when the batch is full;
  the number of pending records never exceeds the capacity after any step; the public
  operations never fail; and after any sequence of \<open>nxt_timer_add\<close> calls, in
  particular capacity + 1 calls on distinct timers, followed by the commit, every
  timer of the sequence is linked in the index.
\<close>

theorem batch_capacity:
  assumes "engine_inv e"
  shows "(\<exists>e'. nxt_timer_change e p c tm = Some e'
             \<and> nchanges e' \<le> mchanges e' \<and> mchanges e' = mchanges e
             \<and> length (changes e') = mchanges e
             \<and> (nchanges e < mchanges e \<longrightarrow>
                   pending e' = pending e @ [\<lparr>change = c, ch_time = tm, timer = p\<rparr>]
                   \<and> tree e' = tree e)
             \<and> (mchanges e \<le> nchanges e \<longrightarrow>
                   (\<exists>e1. nxt_timer_changes_commit e = Some e1
                        \<and> pending e' = [\<lparr>change = c, ch_time = tm, timer = p\<rparr>]
                        \<and> tree e' = tree e1
                        \<and> (\<forall>q. q \<noteq> p \<longrightarrow> heap e' q = heap e1 q))))
       \<and> (\<forall>e2. engine_step e e2 \<longrightarrow>
             nchanges e2 \<le> mchanges e2 \<and> length (changes e2) = mchanges e2)
       \<and> (\<exists>e1. nxt_timer_add e p x = Some e1)
       \<and> (\<exists>e1. nxt_timer_disable e p = Some e1)
       \<and> (\<exists>b e1. nxt_timer_delete e p = Some (b, e1))
       \<and> (\<exists>e1 e2. nxt_timer_add_list e reqs = Some e1 \<and> nchanges e1 \<le> mchanges e1
             \<and> nxt_timer_changes_commit e1 = Some e2
             \<and> (\<forall>q \<in> fst ` set reqs. q \<in> set (tree e2) \<and> in_tree (heap e2 q)))"
proof -
  let ?r = "\<lparr>change = c, ch_time = tm, timer = p\<rparr>"
  from assms have wf: "batch_wf e" by (simp add: engine_inv_def)
  obtain e' where ch: "nxt_timer_change e p c tm = Some e'"
    using timer_change_total [OF wf] by blast
  have wf': "batch_wf e'"
    using wf ch by (rule timer_change_batch_wf)
  have pe: "pending e' = pending (flushed e) @ [?r]"
    using wf ch by (rule timer_change_pending)
  have e'_eq: "e' = (timer_update p (\<lambda>t. t\<lparr>state := NXT_TIMER_CHANGING\<rparr>) (flushed e))
                   \<lparr>changes := (changes e)[nchanges (flushed e) := ?r],
                     nchanges := nchanges (flushed e) + 1\<rparr>"
    using ch by (simp add: timer_change_Some [OF wf])
  have room: "pending e' = pending e @ [?r] \<and> tree e' = tree e" if "nchanges e < mchanges e"
    using that pe by (simp add: e'_eq flushed_def)
  have full: "\<exists>e1. nxt_timer_changes_commit e = Some e1 \<and> pending e' = [?r]
                \<and> tree e' = tree e1 \<and> (\<forall>q. q \<noteq> p \<longrightarrow> heap e' q = heap e1 q)"
    if "mchanges e \<le> nchanges e"
  proof -
    have "nxt_timer_changes_commit e = Some (flushed e)"
      using that wf by (simp add: changes_commit_Some flushed_def batch_wf_def)
    moreover have "pending e' = [?r]"
      using that pe by (simp add: flushed_def)
    moreover have "tree e' = tree (flushed e)" "\<forall>q. q \<noteq> p \<longrightarrow> heap e' q = heap (flushed e) q"
      by (simp_all add: e'_eq)
    ultimately show ?thesis by blast
  qed
  have first: "\<exists>e'. nxt_timer_change e p c tm = Some e'
             \<and> nchanges e' \<le> mchanges e' \<and> mchanges e' = mchanges e
             \<and> length (changes e') = mchanges e
             \<and> (nchanges e < mchanges e \<longrightarrow> pending e' = pending e @ [?r] \<and> tree e' = tree e)
             \<and> (mchanges e \<le> nchanges e \<longrightarrow>
                   (\<exists>e1. nxt_timer_changes_commit e = Some e1 \<and> pending e' = [?r]
                        \<and> tree e' = tree e1 \<and> (\<forall>q. q \<noteq> p \<longrightarrow> heap e' q = heap e1 q)))"
  proof (rule exI [of _ e'], intro conjI impI)
    show "nxt_timer_change e p c tm = Some e'" by (rule ch)
    show "nchanges e' \<le> mchanges e'" using wf' by (simp add: batch_wf_def)
    show "mchanges e' = mchanges e" by (simp add: e'_eq)
    show "length (changes e') = mchanges e" using wf by (simp add: e'_eq batch_wf_def)
    show "pending e' = pending e @ [?r]" if "nchanges e < mchanges e"
      using room [OF that] by simp
    show "tree e' = tree e" if "nchanges e < mchanges e"
      using room [OF that] by simp
    show "\<exists>e1. nxt_timer_changes_commit e = Some e1 \<and> pending e' = [?r]
                \<and> tree e' = tree e1 \<and> (\<forall>q. q \<noteq> p \<longrightarrow> heap e' q = heap e1 q)"
      if "mchanges e \<le> nchanges e"
      using full [OF that] .
  qed
  have steps: "\<forall>e2. engine_step e e2 \<longrightarrow>
             nchanges e2 \<le> mchanges e2 \<and> length (changes e2) = mchanges e2"
    using engine_step_batch [OF assms] by blast
  obtain e1 where al: "nxt_timer_add_list e reqs = Some e1" and inv1: "engine_inv e1"
    and linked: "\<forall>q. in_tree (heap (settle e) q) \<or> q \<in> fst ` set reqs
                     \<longrightarrow> in_tree (heap (settle e1) q)"
    using timer_add_list_settle [OF assms, of reqs] by blast
  from inv1 have wf1: "batch_wf e1" by (simp add: engine_inv_def)
  obtain e2 where c2: "nxt_timer_changes_commit e1 = Some e2"
    using changes_commit_total [OF wf1] by blast
  have "engine_inv e2"
    using inv1 c2 by (rule changes_commit_engine_inv)
  then have ti2: "\<forall>q. (q \<in> set (tree e2)) = in_tree (heap e2 q)"
    by (simp add: engine_inv_def tree_inv_def)
  have h2: "heap e2 = heap (settle e1)"
    using changes_commit_heap_tree(1) [OF c2] by simp
  have "\<forall>q \<in> fst ` set reqs. q \<in> set (tree e2) \<and> in_tree (heap e2 q)"
    using linked ti2 by (simp add: h2)
  then have last: "\<exists>e1 e2. nxt_timer_add_list e reqs = Some e1 \<and> nchanges e1 \<le> mchanges e1
             \<and> nxt_timer_changes_commit e1 = Some e2
             \<and> (\<forall>q \<in> fst ` set reqs. q \<in> set (tree e2) \<and> in_tree (heap e2 q))"
    using al c2 wf1 by (auto simp add: batch_wf_def)
  from first steps timer_add_total [OF wf, of p x] timer_disable_total [OF wf, of p]
    timer_delete_total [OF wf, of p] last
  show ?thesis by (intro conjI)
qed

theorem batch_capacity_witness:
  "engine_inv R1 \<and> length [(1, 100), (2, 50), (3, 100 :: nxt_msec_t)] = mchanges R1 + 1
   \<and> (\<exists>e1 e2. nxt_timer_add_list R1 [(1, 100), (2, 50), (3, 100)] = Some e1
          \<and> nchanges e1 = 1 \<and> nxt_timer_changes_commit e1 = Some e2
          \<and> 1 \<in> set (tree e2) \<and> 2 \<in> set (tree e2) \<and> 3 \<in> set (tree e2))"
proof -
  have inv: "engine_inv R1"
    using reachable_R1 by (rule reachable_engine_inv)
  note bc = batch_capacity [OF inv, of 1 NXT_TIMER_ADD 0 0 "[(1, 100), (2, 50), (3, 100)]"]
  from bc obtain e1 e2 where
    a: "nxt_timer_add_list R1 [(1, 100), (2, 50), (3, 100)] = Some e1"
    and c: "nxt_timer_changes_commit e1 = Some e2"
    and l: "\<forall>q \<in> fst ` set [(1, 100), (2, 50), (3, 100 :: nxt_msec_t)]. q \<in> set (tree e2) \<and> in_tree (heap e2 q)"
    by blast
  from a add_list_R1_nchanges have n: "nchanges e1 = 1"
    by simp
  from l have "1 \<in> set (tree e2) \<and> 2 \<in> set (tree e2) \<and> 3 \<in> set (tree e2)"
    by simp
  with inv a c n show ?thesis
    by (auto simp add: R1_def)
qed

text \<open>
  Claim C10.  In every reachable engine state a timer is linked in the index exactly
  when its \<open>in_tree\<close> flag is set.  Every step (Add, Disable, Delete, a commit, a
  deadline query, an expiry scan, a handler run) that completes leaves the membership
  invariant (this equivalence, with every node linked at most once) in force when it
  holds before the step.
\<close>

theorem membership_invariant:
  "(reachable e \<longrightarrow> (\<forall>p. (p \<in> set (tree e)) = in_tree (heap e p)))
   \<and> (tree_inv e1 \<and> engine_step e1 e2 \<longrightarrow> tree_inv e2)"
proof (intro conjI impI)
  assume "reachable e"
  then have "engine_inv e" by (rule reachable_engine_inv)
  then show "\<forall>p. (p \<in> set (tree e)) = in_tree (heap e p)"
    by (simp add: engine_inv_def tree_inv_def)
next
  assume "tree_inv e1 \<and> engine_step e1 e2"
  then show "tree_inv e2"
    by (auto intro: engine_step_tree_inv)
qed

theorem membership_invariant_witness:
  "reachable R2 \<and> 1 \<in> set (tree R2) \<and> in_tree (heap R2 1) \<and> 2 \<notin> set (tree R2)
   \<and> \<not> in_tree (heap R2 2)
   \<and> tree_inv R2 \<and> engine_step R2 (nxt_timer_expire R2 100)
   \<and> tree_inv (nxt_timer_expire R2 100) \<and> tree (nxt_timer_expire R2 100) = []
   \<and> \<not> in_tree (heap (nxt_timer_expire R2 100) 1)"
proof -
  have "nxt_timers_init R0 2 (Some [rec0, rec0]) = (NXT_OK, R1)"
    by (simp add: nxt_timers_init_def R0_def R1_def)
  then have r1: "reachable R1"
    by (intro reachable_init [of R0 2 "[rec0, rec0]"]) (simp_all add: R0_def heap0_def tmr_def)
  have "nxt_timer_add R1 1 100 = Some R1a"
    by (simp add: nxt_timer_add_def nxt_timer_change_def R1_def R1a_def heap0_def tmr_def
          chg_def timer_update_def nxt_timer_is_in_tree_def)
  then have "engine_step R1 R1a"
    by (rule step_add)
  with r1 have r1a: "reachable R1a"
    by (rule reachable_step)
  have "nxt_timer_find R1a = Some (100, R2)"
    by (simp add: nxt_timer_find_def nxt_timer_changes_commit_def pending_def R1a_def R2_def
          nxt_timer_commit_step_def nxt_timer_commit_switch_def nxt_timer_is_in_tree_def
          timer_update_def Let_def chg_def tmr_def heap0_def nxt_max_def nxt_msec_diff_def)
  then have "engine_step R1a R2"
    by (rule step_find)
  with r1a have r2: "reachable R2"
    by (rule reachable_step)
  have t2: "tree_inv R2"
    by (auto simp add: tree_inv_def R2_def heap0_def tmr_def)
  have s2: "engine_step R2 (nxt_timer_expire R2 100)"
    by (rule step_expire) simp
  note m = membership_invariant [of R2 R2 "nxt_timer_expire R2 100"]
  from m r2 have q: "\<forall>p. (p \<in> set (tree R2)) = in_tree (heap R2 p)"
    by blast
  from m t2 s2 have t3: "tree_inv (nxt_timer_expire R2 100)"
    by blast
  have tr: "tree R2 = [1]"
    by (simp add: R2_def)
  have x: "tree (nxt_timer_expire R2 100) = []"
    by (simp add: nxt_timer_expire_def R2_def Let_def nxt_msec_diff_def tmr_def heap0_def
          nxt_rbtree_delete_def timer_update_def)
  from t3 have y: "\<not> in_tree (heap (nxt_timer_expire R2 100) 1)"
    unfolding tree_inv_def x by simp
  have "in_tree (heap R2 1)"
    using q [rule_format, of 1] by (simp add: tr)
  moreover have "\<not> in_tree (heap R2 2)"
    using q [rule_format, of 2] by (simp add: tr)
  ultimately show ?thesis
    using r2 t2 s2 t3 x y tr
    by simp
qed

end
